theory Spec2Isabelle
  imports Complex_Main "HOL-Library.Multiset"
begin

section \<open>Conventions\<close>

text \<open>
  The C++ sources use \<^verbatim>\<open>int\<close> for indices and counters and \<^verbatim>\<open>int64\<close> for costs,
  penalties and coefficients. Indices and counters are embedded as \<^typ>\<open>int\<close>
  (values that may be negative, such as the \<^verbatim>\<open>kUnassigned = -1\<close> marker) or
  \<^typ>\<open>nat\<close> (values used only as positions in a vector). An \<^verbatim>\<open>int64\<close> value is an
  \<^typ>\<open>int\<close> between \<open>- 2 ^ 63\<close> and \<open>2 ^ 63 - 1\<close>. In the arc costs, in the node
  disjunction filter and in the linear Boolean problems, where a sum or a
  difference of such values decides the result, every \<^verbatim>\<open>int64\<close> addition,
  subtraction and negation is followed by \<open>int64\<close>, the two's complement
  wrap-around of the compiled code.
  A read of a vector outside its bounds, a failed \<^verbatim>\<open>CHECK\<close> and a \<^verbatim>\<open>LOG(FATAL)\<close>
  are values of an error type, never an unspecified HOL value.
\<close>

definition int64 :: "int \<Rightarrow> int" where
  "int64 x = (x + 2 ^ 63) mod 2 ^ 64 - 2 ^ 63"

datatype fault = OutOfBounds | CheckFailed

definition vec_at :: "'a list \<Rightarrow> int \<Rightarrow> fault + 'a" where
  "vec_at xs i = (if 0 \<le> i \<and> i < int (length xs) then Inr (xs ! nat i) else Inl OutOfBounds)"

section \<open>Routing model: data (routing.cc, class RoutingModel)\<close>

definition kUnassigned :: int where "kUnassigned = -1"
definition kNoDisjunction :: int where "kNoDisjunction = -1"
definition kNoPenalty :: int where "kNoPenalty = -1"

record CostCacheElement =
  cache_node :: int
  cache_cost_class :: int
  cache_cost :: int

text \<open>
  \<^verbatim>\<open>class RoutingCache\<close>: the lazily filled table in front of a node evaluator. The
  evaluator is a repeatable callback (\<^verbatim>\<open>CheckIsRepeatable\<close>), a function of its two
  node arguments.
\<close>

record RoutingCache =
  rc_cached :: "bool list list"
  rc_cache :: "int list list"
  rc_callback :: "int \<Rightarrow> int \<Rightarrow> int"

text \<open>
  What \<^verbatim>\<open>NewCachedCallback\<close> stores in \<^verbatim>\<open>costs_\<close>: the callback itself, or the
  \<^verbatim>\<open>RoutingCache::Run\<close> closure around it.
\<close>

datatype NodeEvaluator2 = Callback "int \<Rightarrow> int \<Rightarrow> int" | CachedCallback RoutingCache

record Disjunction =
  disj_nodes :: "int list"
  disj_penalty :: int

text \<open>
  The fields of \<^verbatim>\<open>RoutingModel\<close> that the functions below read or write. The last
  four fields are the views of solver-owned variables that the routing code
  consults: \<^verbatim>\<open>ActiveVar(i)->Max()\<close>, \<^verbatim>\<open>VehicleVar(i)->Contains(v)\<close>, \<^verbatim>\<open>CostVar()->Min()\<close>
  and \<^verbatim>\<open>CostVar()->Max()\<close>.
\<close>

record RoutingModel =
  nodes :: int
  vehicles :: int
  start_end_count :: int
  starts :: "int list"
  ends :: "int list"
  index_to_node :: "int list"
  node_to_index :: "int list"
  index_to_vehicle :: "int list"
  is_depot_set :: bool
  closed :: bool
  costs :: "NodeEvaluator2 list"
  fixed_costs :: "int list"
  cost_cache :: "CostCacheElement list"
  disjunctions :: "Disjunction list"
  node_to_disjunction :: "int list"
  ActiveVar_Max :: "int \<Rightarrow> int"
  VehicleVar_Contains :: "int \<Rightarrow> int \<Rightarrow> bool"
  CostVar_Min :: int
  CostVar_Max :: int

text \<open>
  Modelled from the spec: \<^verbatim>\<open>Size()\<close> and \<^verbatim>\<open>IsEnd()\<close> are declared in routing.h, which is
  not among the sources. The spec fixes the index space: the indices of visit
  nodes and vehicle starts come first, and \<^verbatim>\<open>IsEnd(i)\<close> holds precisely on the
  contiguous tail of indices reserved for vehicle ends; \<^verbatim>\<open>Initialize\<close> and
  \<^verbatim>\<open>SetStartEnd\<close> size every per-index vector with \<^verbatim>\<open>Size()\<close> and place the ends at
  \<^verbatim>\<open>Size() + vehicle\<close>.
\<close>

definition Size :: "RoutingModel \<Rightarrow> int" where
  "Size m = nodes m + vehicles m - start_end_count m"

definition IsEnd :: "RoutingModel \<Rightarrow> int \<Rightarrow> bool" where
  "IsEnd m index = (index \<ge> Size m)"

section \<open>Node disjunction filter (routing.cc, class NodeDisjunctionFilter)\<close>

record 'v IntVarElement =
  elt_var :: 'v
  elt_min :: int
  elt_max :: int

text \<open>
  The filter's own fields, together with the two arrays of its base class
  \<^verbatim>\<open>IntVarLocalSearchFilter\<close>: the variables it watches (the next variables of the
  model) and their synchronized values, read by \<^verbatim>\<open>Value(index)\<close>.
\<close>

record 'v NodeDisjunctionFilter =
  filter_vars :: "'v list"
  filter_values :: "int list"
  active_per_disjunction :: "int list"
  penalty_value :: int
  current_objective_value :: int

text \<open>
  Modelled from the spec: \<^verbatim>\<open>IntVarLocalSearchFilter::FindIndex\<close> lives in
  local_search.cc, which is not among the sources. It yields the position of a
  variable among the watched next variables, and fails for any other variable
  (the filter walks "the delta's changed next-variables").
\<close>

fun FindIndex_from :: "'v list \<Rightarrow> 'v \<Rightarrow> int \<Rightarrow> int option" where
  "FindIndex_from [] v k = None"
| "FindIndex_from (x # xs) v k = (if x = v then Some k else FindIndex_from xs v (k + 1))"

definition FindIndex :: "'v NodeDisjunctionFilter \<Rightarrow> 'v \<Rightarrow> int option" where
  "FindIndex f v = FindIndex_from (filter_vars f) v 0"

text \<open>
  \<^verbatim>\<open>small_map<std::map<DisjunctionIndex, int>>\<close>: an association list kept in
  increasing key order, the order in which the second loop of \<^verbatim>\<open>Accept\<close> visits it.
  \<^verbatim>\<open>LookupOrInsert_add m k d\<close> is \<^verbatim>\<open>LookupOrInsert(&m, k, 0) += d\<close>.
\<close>

fun LookupOrInsert_add :: "(int \<times> int) list \<Rightarrow> int \<Rightarrow> int \<Rightarrow> (int \<times> int) list" where
  "LookupOrInsert_add [] k d = [(k, 0 + d)]"
| "LookupOrInsert_add ((k', v) # m) k d =
     (if k = k' then (k', v + d) # m
      else if k < k' then (k, 0 + d) # (k', v) # m
      else (k', v) # LookupOrInsert_add m k d)"

text \<open>One iteration of the first loop of \<^verbatim>\<open>Accept\<close>, on the pair
  \<^verbatim>\<open>(disjunction_active_deltas, lns_detected)\<close>.\<close>

definition Accept_element ::
  "'v NodeDisjunctionFilter \<Rightarrow> RoutingModel \<Rightarrow> 'v IntVarElement
     \<Rightarrow> (int \<times> int) list \<times> bool \<Rightarrow> fault + ((int \<times> int) list \<times> bool)" where
  "Accept_element f m new_element st =
     (case FindIndex f (elt_var new_element) of
        None \<Rightarrow> Inr st
      | Some index \<Rightarrow>
          (case vec_at (node_to_disjunction m) index of
             Inl e \<Rightarrow> Inl e
           | Inr disjunction_index \<Rightarrow>
               if disjunction_index = kNoDisjunction then Inr st
               else
                 (case vec_at (filter_values f) index of
                    Inl e \<Rightarrow> Inl e
                  | Inr val \<Rightarrow>
                      let was_inactive = (val = index);
                          is_inactive = (elt_min new_element \<le> index \<and> elt_max new_element \<ge> index);
                          lns_detected = (if elt_min new_element \<noteq> elt_max new_element then True else snd st);
                          deltas =
                            (if was_inactive \<and> \<not> is_inactive
                               then LookupOrInsert_add (fst st) disjunction_index 1
                             else if \<not> was_inactive \<and> is_inactive
                               then LookupOrInsert_add (fst st) disjunction_index (- 1)
                             else fst st)
                      in Inr (deltas, lns_detected))))"

fun Accept_scan ::
  "'v NodeDisjunctionFilter \<Rightarrow> RoutingModel \<Rightarrow> 'v IntVarElement list
     \<Rightarrow> (int \<times> int) list \<times> bool \<Rightarrow> fault + ((int \<times> int) list \<times> bool)" where
  "Accept_scan f m [] st = Inr st"
| "Accept_scan f m (e # es) st =
     (case Accept_element f m e st of Inl x \<Rightarrow> Inl x | Inr st' \<Rightarrow> Accept_scan f m es st')"

text \<open>
  The second loop of \<^verbatim>\<open>Accept\<close>. The result \<^verbatim>\<open>Inr None\<close> is the early
  \<^verbatim>\<open>return false\<close>; \<^verbatim>\<open>Inr (Some v)\<close> is the value of \<^verbatim>\<open>new_objective_value\<close> when the
  loop runs to its end. The objective value and the penalties are \<^verbatim>\<open>int64\<close>; the
  counts of active nodes are \<^verbatim>\<open>int\<close>.
\<close>

fun Accept_totals ::
  "'v NodeDisjunctionFilter \<Rightarrow> RoutingModel \<Rightarrow> bool \<Rightarrow> (int \<times> int) list \<Rightarrow> int
     \<Rightarrow> fault + int option" where
  "Accept_totals f m lns_detected [] new_objective_value = Inr (Some new_objective_value)"
| "Accept_totals f m lns_detected ((d, delta) # rest) new_objective_value =
     (case vec_at (active_per_disjunction f) d of
        Inl e \<Rightarrow> Inl e
      | Inr active \<Rightarrow>
          let active_nodes = active + delta in
          if active_nodes > 1 then Inr None
          else if \<not> lns_detected then
            (case vec_at (disjunctions m) d of
               Inl e \<Rightarrow> Inl e
             | Inr dj \<Rightarrow>
                 let penalty = disj_penalty dj in
                 if delta < 0 then
                   (if penalty < 0 then Inr None
                    else Accept_totals f m lns_detected rest (int64 (new_objective_value + penalty)))
                 else if delta > 0 then
                   Accept_totals f m lns_detected rest (int64 (new_objective_value - penalty))
                 else Accept_totals f m lns_detected rest new_objective_value)
          else Accept_totals f m lns_detected rest new_objective_value)"

definition Accept :: "'v NodeDisjunctionFilter \<Rightarrow> RoutingModel \<Rightarrow> 'v IntVarElement list \<Rightarrow> fault + bool" where
  "Accept f m delta =
     (case Accept_scan f m delta ([], False) of
        Inl e \<Rightarrow> Inl e
      | Inr (disjunction_active_deltas, lns_detected) \<Rightarrow>
          (case Accept_totals f m lns_detected disjunction_active_deltas
                  (int64 (current_objective_value f + penalty_value f)) of
             Inl e \<Rightarrow> Inl e
           | Inr None \<Rightarrow> Inr False
           | Inr (Some new_objective_value) \<Rightarrow>
               if lns_detected then Inr True
               else Inr (new_objective_value \<le> CostVar_Max m \<and> new_objective_value \<ge> CostVar_Min m)))"

section \<open>Routing model: search status (routing.cc, RoutingModel::Solve)\<close>

datatype Status = ROUTING_NOT_SOLVED | ROUTING_SUCCESS | ROUTING_FAIL | ROUTING_FAIL_TIMEOUT

text \<open>
  What \<^verbatim>\<open>RoutingModel::Solve\<close> reads after the call to the external solver:
  the two wall-clock readings, the solution collector and the time limit.
  The search itself belongs to the constraint solver and is not part of the
  routing sources; its observable outcome is the input of the embedding.
\<close>

record 'a SolveObservation =
  start_time_ms :: int
  end_time_ms :: int
  collected :: "'a list"
  time_limit_ms :: int

definition Solve :: "'a SolveObservation \<Rightarrow> 'a option \<times> Status" where
  "Solve ob =
     (let elapsed_time_ms = end_time_ms ob - start_time_ms ob in
      if length (collected ob) = 1 then (Some (collected ob ! 0), ROUTING_SUCCESS)
      else if elapsed_time_ms \<ge> time_limit_ms ob then (None, ROUTING_FAIL_TIMEOUT)
      else (None, ROUTING_FAIL))"

text \<open>
  The condition under which the first loop of \<^verbatim>\<open>Accept\<close> sets \<^verbatim>\<open>lns_detected\<close> at an
  element: the element's variable is watched by the filter, its index belongs to
  a disjunction, and its domain is not a single value.
\<close>

definition sets_lns_detected :: "'v NodeDisjunctionFilter \<Rightarrow> RoutingModel \<Rightarrow> 'v IntVarElement \<Rightarrow> bool" where
  "sets_lns_detected f m e =
     (case FindIndex f (elt_var e) of
        None \<Rightarrow> False
      | Some index \<Rightarrow>
          (case vec_at (node_to_disjunction m) index of
             Inl x \<Rightarrow> False
           | Inr d \<Rightarrow> d \<noteq> kNoDisjunction \<and> elt_min e \<noteq> elt_max e))"

subsection \<open>What a delta does to the disjunctions\<close>

text \<open>
  The change that one element of a delta makes to the number of active nodes
  of a disjunction. The element counts when its variable is one of the
  watched next variables and its index belongs to a disjunction \<open>d\<close>. The node
  was inactive when its synchronized next value is the index itself, and it
  may stay inactive when the new domain contains the index. An inactive node
  whose new domain excludes its index becomes active, \<open>(d, 1)\<close>; an active node
  whose new domain admits its index becomes inactive, \<open>(d, - 1)\<close>.
\<close>

definition activity_change ::
  "'v NodeDisjunctionFilter \<Rightarrow> RoutingModel \<Rightarrow> 'v IntVarElement \<Rightarrow> (int \<times> int) option" where
  "activity_change f m e =
     (case FindIndex f (elt_var e) of
        None \<Rightarrow> None
      | Some index \<Rightarrow>
          (case vec_at (node_to_disjunction m) index of
             Inl x \<Rightarrow> None
           | Inr d \<Rightarrow>
               if d = kNoDisjunction then None
               else
                 (case vec_at (filter_values f) index of
                    Inl x \<Rightarrow> None
                  | Inr val \<Rightarrow>
                      if val = index \<and> \<not> (elt_min e \<le> index \<and> index \<le> elt_max e) then Some (d, 1)
                      else if val \<noteq> index \<and> (elt_min e \<le> index \<and> index \<le> elt_max e) then Some (d, - 1)
                      else None)))"

text \<open>The changes of a whole delta, the disjunctions it touches, and the number
  of active nodes a disjunction would have after it.\<close>

definition activity_changes ::
  "'v NodeDisjunctionFilter \<Rightarrow> RoutingModel \<Rightarrow> 'v IntVarElement list \<Rightarrow> (int \<times> int) list" where
  "activity_changes f m delta = List.map_filter (activity_change f m) delta"

definition net_change :: "(int \<times> int) list \<Rightarrow> int \<Rightarrow> int" where
  "net_change changes d = sum_list (map snd (filter (\<lambda>p. fst p = d) changes))"

definition active_after ::
  "'v NodeDisjunctionFilter \<Rightarrow> RoutingModel \<Rightarrow> 'v IntVarElement list \<Rightarrow> int \<Rightarrow> int" where
  "active_after f m delta d =
     active_per_disjunction f ! nat d + net_change (activity_changes f m delta) d"

definition touched_disjunctions ::
  "'v NodeDisjunctionFilter \<Rightarrow> RoutingModel \<Rightarrow> 'v IntVarElement list \<Rightarrow> int list" where
  "touched_disjunctions f m delta = map fst (activity_changes f m delta)"

text \<open>
  The sizes the constructor of the filter and the model give the vectors:
  every watched variable has a synchronized value and an entry in
  \<^verbatim>\<open>node_to_disjunction_\<close>, and every disjunction has a counter.
\<close>

definition filter_in_bounds :: "'v NodeDisjunctionFilter \<Rightarrow> RoutingModel \<Rightarrow> bool" where
  "filter_in_bounds f m =
     (length (filter_vars f) \<le> length (filter_values f)
      \<and> length (filter_vars f) \<le> length (node_to_disjunction m)
      \<and> list_all (\<lambda>d. d = kNoDisjunction \<or> 0 \<le> d \<and> d < int (length (active_per_disjunction f)))
           (node_to_disjunction m))"

text \<open>The value a key has in the delta map, 0 when it is absent.\<close>

definition lookup0 :: "(int \<times> int) list \<Rightarrow> int \<Rightarrow> int" where
  "lookup0 acc d = (case map_of acc d of None \<Rightarrow> 0 | Some v \<Rightarrow> v)"

subsection \<open>Example instances\<close>

text \<open>
  Three nodes, one vehicle; nodes 1 and 2 form disjunction 0 with penalty 5.
  In \<open>ex_filter_full\<close> node 1 is active and node 2 is inactive in the synchronized
  solution; in \<open>ex_filter_free\<close> both are inactive.
\<close>

definition ex_model :: RoutingModel where
  "ex_model = \<lparr>nodes = 3, vehicles = 1, start_end_count = 1, starts = [0], ends = [3],
     index_to_node = [0, 1, 2, 0], node_to_index = [0, 1, 2], index_to_vehicle = [0, -1, -1, 0],
     is_depot_set = True, closed = True, costs = [Callback (\<lambda>i j. 10 * i + j)], fixed_costs = [100],
     cost_cache = replicate 3 \<lparr>cache_node = -1, cache_cost_class = -1, cache_cost = 0\<rparr>,
     disjunctions = [\<lparr>disj_nodes = [1, 2], disj_penalty = 5\<rparr>],
     node_to_disjunction = [-1, 0, 0],
     ActiveVar_Max = (\<lambda>i. 1), VehicleVar_Contains = (\<lambda>i v. True),
     CostVar_Min = 0, CostVar_Max = 1000\<rparr>"

definition ex_filter_full :: "nat NodeDisjunctionFilter" where
  "ex_filter_full = \<lparr>filter_vars = [10, 11, 12], filter_values = [1, 3, 2],
     active_per_disjunction = [1], penalty_value = 0, current_objective_value = 0\<rparr>"

definition ex_filter_free :: "nat NodeDisjunctionFilter" where
  "ex_filter_free = \<lparr>filter_vars = [10, 11, 12], filter_values = [3, 1, 2],
     active_per_disjunction = [0], penalty_value = 5, current_objective_value = 0\<rparr>"

definition ex_lns_element :: "nat IntVarElement" where
  "ex_lns_element = \<lparr>elt_var = 12, elt_min = 0, elt_max = 1\<rparr>"

text \<open>A delta of two elements on \<open>ex_filter_full\<close>: the next variable of the active node 1
  is released to the domain 0..3, and the next variable of the inactive node 2
  is bound to 3.\<close>

definition ex_release_element :: "nat IntVarElement" where
  "ex_release_element = \<lparr>elt_var = 11, elt_min = 0, elt_max = 3\<rparr>"

definition ex_bind_element :: "nat IntVarElement" where
  "ex_bind_element = \<lparr>elt_var = 12, elt_min = 3, elt_max = 3\<rparr>"

section \<open>FlatZinc constraint dispatch (flatzinc2/constraints.cc)\<close>

type_synonym FzIntegerVariable = string

datatype FzArgumentType = INT_VALUE | INT_LIST | INT_VAR_REF | INT_VAR_REF_ARRAY | VOID_ARGUMENT

text \<open>
  Modelled from the spec: \<^verbatim>\<open>FzArgument\<close>, \<^verbatim>\<open>FzConstraint\<close> and \<^verbatim>\<open>FzSolver\<close> are declared in
  flatzinc2/model.h and flatzinc2/solver.h, which are not among the sources. A
  flat argument is a tagged value (integer constant, variable reference, array
  of integer constants, array of variable references); an accessor that
  receives the wrong variant is a \<open>TypeError\<close>. A flat constraint is a tag, an
  ordered argument list and an optional target variable.
\<close>

record FzArgument =
  arg_type :: FzArgumentType
  integer_value :: int
  arg_values :: "int list"
  arg_variables :: "FzIntegerVariable list"

record FzConstraint =
  ct_type :: string
  ct_arguments :: "FzArgument list"
  target_variable :: "FzIntegerVariable option"

datatype FzError =
    NotImplemented string
  | ShouldHaveBeenPresolved string
  | TypeError
  | BadAccess

text \<open>
  The expressions and constraints of the external constraint solver, kept
  symbolic: the dispatcher only builds them and hands them over.
\<close>

datatype IntExpr =
    ExprVar FzIntegerVariable
  | ExprConst int
  | MakeSum IntExpr int
  | MakeElement "int list" IntExpr

datatype Operand = OpExpr IntExpr | OpCst int

datatype SolverConstraint =
    MakeAllDifferent "IntExpr list"
  | MakeAllDifferentExcept "IntExpr list" int
  | MakeEquality IntExpr Operand
  | MakeNonEquality IntExpr Operand
  | MakeGreaterOrEqual IntExpr Operand
  | MakeGreater IntExpr Operand
  | MakeLessOrEqual IntExpr Operand
  | MakeLess IntExpr Operand
  | MakeFalseConstraint
  | MakeScalProdEquality "IntExpr list" "int list" int
  | MakeElementEquality "int list" IntExpr IntExpr

text \<open>
  The part of \<^verbatim>\<open>FzSolver\<close> that extraction touches: the constraints added to the
  solver so far (\<^verbatim>\<open>AddConstraint\<close> appends), the expressions recorded for target
  variables (\<^verbatim>\<open>SetExtracted\<close>), and the bounds the solver reports for an
  expression (\<^verbatim>\<open>Min()\<close>, \<^verbatim>\<open>Max()\<close>).
\<close>

record FzSolver =
  posted :: "SolverConstraint list"
  extracted :: "(FzIntegerVariable \<times> IntExpr) list"
  Expr_Min :: "IntExpr \<Rightarrow> int"
  Expr_Max :: "IntExpr \<Rightarrow> int"

definition AddConstraint :: "FzSolver \<Rightarrow> SolverConstraint \<Rightarrow> FzSolver" where
  "AddConstraint s c = s\<lparr>posted := posted s @ [c]\<rparr>"

definition SetExtracted :: "FzSolver \<Rightarrow> FzIntegerVariable \<Rightarrow> IntExpr \<Rightarrow> FzSolver" where
  "SetExtracted s v e = s\<lparr>extracted := (v, e) # extracted s\<rparr>"

definition Arg :: "FzConstraint \<Rightarrow> nat \<Rightarrow> FzError + FzArgument" where
  "Arg ct i = (if i < length (ct_arguments ct) then Inr (ct_arguments ct ! i) else Inl BadAccess)"

definition Value :: "FzArgument \<Rightarrow> FzError + int" where
  "Value a = (if arg_type a = INT_VALUE then Inr (integer_value a) else Inl TypeError)"

definition Var :: "FzArgument \<Rightarrow> FzError + FzIntegerVariable" where
  "Var a = (case (arg_type a, arg_variables a) of
              (INT_VAR_REF, [v]) \<Rightarrow> Inr v
            | _ \<Rightarrow> Inl TypeError)"

definition GetExpression :: "FzArgument \<Rightarrow> FzError + IntExpr" where
  "GetExpression a =
     (if arg_type a = INT_VAR_REF then (case Var a of Inl e \<Rightarrow> Inl e | Inr v \<Rightarrow> Inr (ExprVar v))
      else if arg_type a = INT_VALUE then Inr (ExprConst (integer_value a))
      else Inl TypeError)"

definition GetVariableArray :: "FzArgument \<Rightarrow> FzError + IntExpr list" where
  "GetVariableArray a =
     (if arg_type a = INT_VAR_REF_ARRAY then Inr (map ExprVar (arg_variables a))
      else Inl TypeError)"

definition ExtractAllDifferentInt :: "FzSolver \<Rightarrow> FzConstraint \<Rightarrow> FzError + FzSolver" where
  "ExtractAllDifferentInt s ct =
     (case Arg ct 0 of Inl e \<Rightarrow> Inl e | Inr a0 \<Rightarrow>
      case GetVariableArray a0 of Inl e \<Rightarrow> Inl e | Inr vars \<Rightarrow>
      Inr (AddConstraint s (MakeAllDifferent vars)))"

definition ExtractAlldifferentExcept0 :: "FzSolver \<Rightarrow> FzConstraint \<Rightarrow> FzError + FzSolver" where
  "ExtractAlldifferentExcept0 s ct =
     (case Arg ct 0 of Inl e \<Rightarrow> Inl e | Inr a0 \<Rightarrow>
      case GetVariableArray a0 of Inl e \<Rightarrow> Inl e | Inr vars \<Rightarrow>
      Inr (AddConstraint s (MakeAllDifferentExcept vars 0)))"

text \<open>The loop \<^verbatim>\<open>coefficients[i] = values[i + imin - 1]\<close> for \<^verbatim>\<open>i\<close> from \<^verbatim>\<open>0\<close> to \<^verbatim>\<open>size - 1\<close>
  (\<open>n\<close> below is the source's \<^verbatim>\<open>size\<close>).\<close>

fun copy_coefficients :: "int list \<Rightarrow> int \<Rightarrow> nat \<Rightarrow> nat \<Rightarrow> FzError + int list" where
  "copy_coefficients vals imin i 0 = Inr []"
| "copy_coefficients vals imin i (Suc n) =
     (let k = int i + imin - 1 in
      if 0 \<le> k \<and> k < int (length vals) then
        (case copy_coefficients vals imin (Suc i) n of
           Inl e \<Rightarrow> Inl e
         | Inr cs \<Rightarrow> Inr ((vals ! nat k) # cs))
      else Inl BadAccess)"

definition ExtractArrayIntElement :: "FzSolver \<Rightarrow> FzConstraint \<Rightarrow> FzError + FzSolver" where
  "ExtractArrayIntElement s ct =
     (case Arg ct 0 of Inl e \<Rightarrow> Inl e | Inr a0 \<Rightarrow>
      case GetExpression a0 of Inl e \<Rightarrow> Inl e | Inr index \<Rightarrow>
      case Arg ct 1 of Inl e \<Rightarrow> Inl e | Inr a1 \<Rightarrow>
      let vals = arg_values a1;
          imin = max (Expr_Min s index) 1;
          imax = min (Expr_Max s index) (int (length vals) + 1);
          shifted_index = MakeSum index (- imin);
          n = imax - imin + 1
      in if n < 0 then Inl BadAccess
         else
           case copy_coefficients vals imin 0 (nat n) of Inl e \<Rightarrow> Inl e | Inr coefficients \<Rightarrow>
           (case target_variable ct of
              Some tv \<Rightarrow> Inr (SetExtracted s tv (MakeElement coefficients shifted_index))
            | None \<Rightarrow>
                (case Arg ct 2 of Inl e \<Rightarrow> Inl e | Inr a2 \<Rightarrow>
                 case GetExpression a2 of Inl e \<Rightarrow> Inl e | Inr target \<Rightarrow>
                 Inr (AddConstraint s (MakeElementEquality coefficients shifted_index target)))))"

text \<open>
  \<^verbatim>\<open>ExtractIntEq\<close>, \<^verbatim>\<open>ExtractIntGe\<close>, \<^verbatim>\<open>ExtractIntGt\<close>, \<^verbatim>\<open>ExtractIntLe\<close>, \<^verbatim>\<open>ExtractIntLt\<close> and
  \<^verbatim>\<open>ExtractIntNe\<close> are six copies of one body: four branches on whether each side is
  a variable reference. \<open>mk\<close> builds the relation posted when the left side is
  a variable, \<open>mk_swapped\<close> the one posted on \<open>(right, left)\<close> when only the right
  side is, and \<open>violated\<close> is the test on two constants that posts the false
  constraint.
\<close>

definition ExtractComparison ::
  "(IntExpr \<Rightarrow> Operand \<Rightarrow> SolverConstraint) \<Rightarrow> (IntExpr \<Rightarrow> Operand \<Rightarrow> SolverConstraint)
     \<Rightarrow> (int \<Rightarrow> int \<Rightarrow> bool) \<Rightarrow> FzSolver \<Rightarrow> FzConstraint \<Rightarrow> FzError + FzSolver" where
  "ExtractComparison mk mk_swapped violated s ct =
     (case Arg ct 0 of Inl e \<Rightarrow> Inl e | Inr a0 \<Rightarrow>
      case Arg ct 1 of Inl e \<Rightarrow> Inl e | Inr a1 \<Rightarrow>
      if arg_type a0 = INT_VAR_REF then
        (case GetExpression a0 of Inl e \<Rightarrow> Inl e | Inr left \<Rightarrow>
         if arg_type a1 = INT_VAR_REF then
           (case GetExpression a1 of Inl e \<Rightarrow> Inl e | Inr right \<Rightarrow>
            Inr (AddConstraint s (mk left (OpExpr right))))
         else
           (case Value a1 of Inl e \<Rightarrow> Inl e | Inr right \<Rightarrow>
            Inr (AddConstraint s (mk left (OpCst right)))))
      else
        (case Value a0 of Inl e \<Rightarrow> Inl e | Inr left \<Rightarrow>
         if arg_type a1 = INT_VAR_REF then
           (case GetExpression a1 of Inl e \<Rightarrow> Inl e | Inr right \<Rightarrow>
            Inr (AddConstraint s (mk_swapped right (OpCst left))))
         else
           (case Value a1 of Inl e \<Rightarrow> Inl e | Inr right \<Rightarrow>
            if violated left right then Inr (AddConstraint s MakeFalseConstraint) else Inr s)))"

definition ExtractIntEq :: "FzSolver \<Rightarrow> FzConstraint \<Rightarrow> FzError + FzSolver" where
  "ExtractIntEq = ExtractComparison MakeEquality MakeEquality (\<lambda>left right. left \<noteq> right)"

definition ExtractIntGe :: "FzSolver \<Rightarrow> FzConstraint \<Rightarrow> FzError + FzSolver" where
  "ExtractIntGe = ExtractComparison MakeGreaterOrEqual MakeLessOrEqual (\<lambda>left right. left < right)"

definition ExtractIntGt :: "FzSolver \<Rightarrow> FzConstraint \<Rightarrow> FzError + FzSolver" where
  "ExtractIntGt = ExtractComparison MakeGreater MakeLess (\<lambda>left right. left \<le> right)"

definition ExtractIntLe :: "FzSolver \<Rightarrow> FzConstraint \<Rightarrow> FzError + FzSolver" where
  "ExtractIntLe = ExtractComparison MakeLessOrEqual MakeGreaterOrEqual (\<lambda>left right. left > right)"

definition ExtractIntLt :: "FzSolver \<Rightarrow> FzConstraint \<Rightarrow> FzError + FzSolver" where
  "ExtractIntLt = ExtractComparison MakeLess MakeGreater (\<lambda>left right. left \<ge> right)"

definition ExtractIntNe :: "FzSolver \<Rightarrow> FzConstraint \<Rightarrow> FzError + FzSolver" where
  "ExtractIntNe = ExtractComparison MakeNonEquality MakeNonEquality (\<lambda>left right. left = right)"

definition ExtractIntLinEq :: "FzSolver \<Rightarrow> FzConstraint \<Rightarrow> FzError + FzSolver" where
  "ExtractIntLinEq s ct =
     (case Arg ct 0 of Inl e \<Rightarrow> Inl e | Inr a0 \<Rightarrow>
      case Arg ct 1 of Inl e \<Rightarrow> Inl e | Inr a1 \<Rightarrow>
      case GetVariableArray a1 of Inl e \<Rightarrow> Inl e | Inr vars \<Rightarrow>
      case Arg ct 2 of Inl e \<Rightarrow> Inl e | Inr a2 \<Rightarrow>
      case Value a2 of Inl e \<Rightarrow> Inl e | Inr rhs \<Rightarrow>
      Inr (AddConstraint s (MakeScalProdEquality vars (arg_values a0) rhs)))"

definition ExtractTrueConstraint :: "FzSolver \<Rightarrow> FzConstraint \<Rightarrow> FzError + FzSolver" where
  "ExtractTrueConstraint s ct = Inr s"

definition ExtractBool2int :: "FzSolver \<Rightarrow> FzConstraint \<Rightarrow> FzError + FzSolver" where
  "ExtractBool2int s ct = Inl (ShouldHaveBeenPresolved (ct_type ct))"

text \<open>
  Every other handler of the file has the one-line body
  \<^verbatim>\<open>LOG(FATAL) << "Not implemented: Extract " << ct->DebugString()\<close>.
\<close>

definition ExtractNotImplemented :: "FzSolver \<Rightarrow> FzConstraint \<Rightarrow> FzError + FzSolver" where
  "ExtractNotImplemented s ct = Inl (NotImplemented (ct_type ct))"

text \<open>
  The cascade of \<^verbatim>\<open>FzSolver::ExtractConstraint\<close>, in source order: each
  \<^verbatim>\<open>if (type == tag)\<close> with the handler it calls. The comparison stops at the first
  tag that matches. The cascade has no final \<^verbatim>\<open>else\<close>: when no tag matches, the
  function returns and the solver is left as it was.
\<close>

definition dispatch_cascade :: "(string \<times> (FzSolver \<Rightarrow> FzConstraint \<Rightarrow> FzError + FzSolver)) list" where
  "dispatch_cascade =
    [(''all_different_int'', ExtractAllDifferentInt),
     (''alldifferent_except_0'', ExtractAlldifferentExcept0),
     (''array_bool_and'', ExtractNotImplemented),
     (''array_bool_element'', ExtractArrayIntElement),
     (''array_bool_or'', ExtractNotImplemented),
     (''array_bool_xor'', ExtractNotImplemented),
     (''array_int_element'', ExtractArrayIntElement),
     (''array_var_bool_element'', ExtractNotImplemented),
     (''array_var_int_element'', ExtractNotImplemented),
     (''array_var_int_position'', ExtractNotImplemented),
     (''bool2int'', ExtractBool2int),
     (''bool_and'', ExtractNotImplemented),
     (''bool_clause'', ExtractNotImplemented),
     (''bool_eq'', ExtractIntEq),
     (''bool_eq_reif'', ExtractNotImplemented),
     (''bool_ge'', ExtractIntGe),
     (''bool_ge_reif'', ExtractNotImplemented),
     (''bool_gt'', ExtractIntGt),
     (''bool_gt_reif'', ExtractNotImplemented),
     (''bool_le'', ExtractIntLe),
     (''bool_le_reif'', ExtractNotImplemented),
     (''bool_left_imp'', ExtractNotImplemented),
     (''bool_lin_eq'', ExtractIntLinEq),
     (''bool_lin_le'', ExtractNotImplemented),
     (''bool_lt'', ExtractIntLt),
     (''bool_lt_reif'', ExtractNotImplemented),
     (''bool_ne'', ExtractIntNe),
     (''bool_ne_reif'', ExtractNotImplemented),
     (''bool_not'', ExtractNotImplemented),
     (''bool_or'', ExtractNotImplemented),
     (''bool_right_imp'', ExtractNotImplemented),
     (''bool_xor'', ExtractNotImplemented),
     (''circuit'', ExtractNotImplemented),
     (''count_eq'', ExtractNotImplemented),
     (''count_geq'', ExtractNotImplemented),
     (''count_gt'', ExtractNotImplemented),
     (''count_leq'', ExtractNotImplemented),
     (''count_lt'', ExtractNotImplemented),
     (''count_neq'', ExtractNotImplemented),
     (''count_reif'', ExtractNotImplemented),
     (''diffn'', ExtractNotImplemented),
     (''fixed_cumulative'', ExtractNotImplemented),
     (''global_cardinality'', ExtractNotImplemented),
     (''global_cardinality_closed'', ExtractNotImplemented),
     (''global_cardinality_low_up'', ExtractNotImplemented),
     (''global_cardinality_low_up_closed'', ExtractNotImplemented),
     (''global_cardinality_old'', ExtractNotImplemented),
     (''int_abs'', ExtractNotImplemented),
     (''int_div'', ExtractNotImplemented),
     (''int_eq'', ExtractIntEq),
     (''int_eq_reif'', ExtractNotImplemented),
     (''int_ge'', ExtractIntGe),
     (''int_ge_reif'', ExtractNotImplemented),
     (''int_gt'', ExtractIntGt),
     (''int_gt_reif'', ExtractNotImplemented),
     (''int_in'', ExtractNotImplemented),
     (''int_le'', ExtractIntLe),
     (''int_le_reif'', ExtractNotImplemented),
     (''int_lin_eq'', ExtractIntLinEq),
     (''int_lin_eq_reif'', ExtractNotImplemented),
     (''int_lin_ge'', ExtractNotImplemented),
     (''int_lin_ge_reif'', ExtractNotImplemented),
     (''int_lin_le'', ExtractNotImplemented),
     (''int_lin_le_reif'', ExtractNotImplemented),
     (''int_lin_ne'', ExtractNotImplemented),
     (''int_lin_ne_reif'', ExtractNotImplemented),
     (''int_lt'', ExtractIntLt),
     (''int_lt_reif'', ExtractNotImplemented),
     (''int_max'', ExtractNotImplemented),
     (''int_min'', ExtractNotImplemented),
     (''int_minus'', ExtractNotImplemented),
     (''int_mod'', ExtractNotImplemented),
     (''int_ne'', ExtractIntNe),
     (''int_ne_reif'', ExtractNotImplemented),
     (''int_negate'', ExtractNotImplemented),
     (''int_plus'', ExtractNotImplemented),
     (''int_times'', ExtractNotImplemented),
     (''inverse'', ExtractNotImplemented),
     (''lex_less_bool'', ExtractNotImplemented),
     (''lex_less_int'', ExtractNotImplemented),
     (''lex_lesseq_bool'', ExtractNotImplemented),
     (''lex_lesseq_int'', ExtractNotImplemented),
     (''maximum_int'', ExtractNotImplemented),
     (''minimum_int'', ExtractNotImplemented),
     (''nvalue'', ExtractNotImplemented),
     (''regular'', ExtractNotImplemented),
     (''set_in'', ExtractNotImplemented),
     (''set_in_reif'', ExtractNotImplemented),
     (''sliding_sum'', ExtractNotImplemented),
     (''sort'', ExtractNotImplemented),
     (''table_bool'', ExtractNotImplemented),
     (''table_int'', ExtractNotImplemented),
     (''true_constraint'', ExtractTrueConstraint),
     (''var_cumulative'', ExtractNotImplemented),
     (''variable_cumulative'', ExtractNotImplemented)]"

fun run_cascade ::
  "(string \<times> (FzSolver \<Rightarrow> FzConstraint \<Rightarrow> FzError + FzSolver)) list
     \<Rightarrow> FzSolver \<Rightarrow> FzConstraint \<Rightarrow> FzError + FzSolver" where
  "run_cascade [] s ct = Inr s"
| "run_cascade ((tag, handler) # rest) s ct =
     (if ct_type ct = tag then handler s ct else run_cascade rest s ct)"

definition ExtractConstraint :: "FzSolver \<Rightarrow> FzConstraint \<Rightarrow> FzError + FzSolver" where
  "ExtractConstraint s ct = run_cascade dispatch_cascade s ct"

text \<open>The tags of the cascade whose handler is one of the "Not implemented" stubs.\<close>

definition not_implemented_tags :: "string list" where
  "not_implemented_tags =
    [''array_bool_and'',
     ''array_bool_or'',
     ''array_bool_xor'',
     ''array_var_bool_element'',
     ''array_var_int_element'',
     ''array_var_int_position'',
     ''bool_and'',
     ''bool_clause'',
     ''bool_eq_reif'',
     ''bool_ge_reif'',
     ''bool_gt_reif'',
     ''bool_le_reif'',
     ''bool_left_imp'',
     ''bool_lin_le'',
     ''bool_lt_reif'',
     ''bool_ne_reif'',
     ''bool_not'',
     ''bool_or'',
     ''bool_right_imp'',
     ''bool_xor'',
     ''circuit'',
     ''count_eq'',
     ''count_geq'',
     ''count_gt'',
     ''count_leq'',
     ''count_lt'',
     ''count_neq'',
     ''count_reif'',
     ''diffn'',
     ''fixed_cumulative'',
     ''global_cardinality'',
     ''global_cardinality_closed'',
     ''global_cardinality_low_up'',
     ''global_cardinality_low_up_closed'',
     ''global_cardinality_old'',
     ''int_abs'',
     ''int_div'',
     ''int_eq_reif'',
     ''int_ge_reif'',
     ''int_gt_reif'',
     ''int_in'',
     ''int_le_reif'',
     ''int_lin_eq_reif'',
     ''int_lin_ge'',
     ''int_lin_ge_reif'',
     ''int_lin_le'',
     ''int_lin_le_reif'',
     ''int_lin_ne'',
     ''int_lin_ne_reif'',
     ''int_lt_reif'',
     ''int_max'',
     ''int_min'',
     ''int_minus'',
     ''int_mod'',
     ''int_ne_reif'',
     ''int_negate'',
     ''int_plus'',
     ''int_times'',
     ''inverse'',
     ''lex_less_bool'',
     ''lex_less_int'',
     ''lex_lesseq_bool'',
     ''lex_lesseq_int'',
     ''maximum_int'',
     ''minimum_int'',
     ''nvalue'',
     ''regular'',
     ''set_in'',
     ''set_in_reif'',
     ''sliding_sum'',
     ''sort'',
     ''table_bool'',
     ''table_int'',
     ''var_cumulative'',
     ''variable_cumulative'']"

subsection \<open>Example instances\<close>

definition ex_solver :: FzSolver where
  "ex_solver = \<lparr>posted = [], extracted = [], Expr_Min = (\<lambda>e. 0), Expr_Max = (\<lambda>e. 10)\<rparr>"

definition ex_int_arg :: "int \<Rightarrow> FzArgument" where
  "ex_int_arg k = \<lparr>arg_type = INT_VALUE, integer_value = k, arg_values = [], arg_variables = []\<rparr>"

definition ex_var_arg :: "FzIntegerVariable \<Rightarrow> FzArgument" where
  "ex_var_arg v = \<lparr>arg_type = INT_VAR_REF, integer_value = 0, arg_values = [], arg_variables = [v]\<rparr>"

text \<open>\<^verbatim>\<open>int_pow(x, 2, y)\<close>: a FlatZinc builtin whose tag the cascade does not name.\<close>

definition ex_int_pow :: FzConstraint where
  "ex_int_pow = \<lparr>ct_type = ''int_pow'',
     ct_arguments = [ex_var_arg ''x'', ex_int_arg 2, ex_var_arg ''y''],
     target_variable = None\<rparr>"

section \<open>Routing model: arc costs (routing.cc, RoutingCache and RoutingModel::GetArcCost)\<close>

definition RoutingCache_new :: "(int \<Rightarrow> int \<Rightarrow> int) \<Rightarrow> nat \<Rightarrow> RoutingCache" where
  "RoutingCache_new callback n =
     \<lparr>rc_cached = replicate n (replicate n False),
      rc_cache = replicate n (replicate n 0),
      rc_callback = callback\<rparr>"

definition Run :: "RoutingCache \<Rightarrow> int \<Rightarrow> int \<Rightarrow> fault + (int \<times> RoutingCache)" where
  "Run rc i j =
     (case vec_at (rc_cached rc) i of Inl e \<Rightarrow> Inl e | Inr cached_i \<Rightarrow>
      case vec_at cached_i j of Inl e \<Rightarrow> Inl e | Inr hit \<Rightarrow>
      case vec_at (rc_cache rc) i of Inl e \<Rightarrow> Inl e | Inr cache_i \<Rightarrow>
      case vec_at cache_i j of Inl e \<Rightarrow> Inl e | Inr stored \<Rightarrow>
      if hit then Inr (stored, rc)
      else
        let cached_value = rc_callback rc i j in
        Inr (cached_value,
             rc\<lparr>rc_cached := (rc_cached rc)[nat i := cached_i[nat j := True]],
                rc_cache := (rc_cache rc)[nat i := cache_i[nat j := cached_value]]\<rparr>))"

text \<open>\<^verbatim>\<open>FLAGS_routing_cache_callbacks\<close> and \<^verbatim>\<open>FLAGS_routing_max_cache_size\<close> are the two
  first arguments.\<close>

definition NewCachedCallback :: "bool \<Rightarrow> int \<Rightarrow> RoutingModel \<Rightarrow> (int \<Rightarrow> int \<Rightarrow> int) \<Rightarrow> NodeEvaluator2" where
  "NewCachedCallback routing_cache_callbacks routing_max_cache_size m callback =
     (let n = length (node_to_index m) in
      if routing_cache_callbacks \<and> int n \<le> routing_max_cache_size
      then CachedCallback (RoutingCache_new callback n)
      else Callback callback)"

text \<open>A call \<^verbatim>\<open>evaluator->Run(i, j)\<close> through the pointer stored in \<^verbatim>\<open>costs_\<close>.\<close>

definition Run_evaluator :: "NodeEvaluator2 \<Rightarrow> int \<Rightarrow> int \<Rightarrow> fault + (int \<times> NodeEvaluator2)" where
  "Run_evaluator ev i j =
     (case ev of
        Callback f \<Rightarrow> Inr (f i j, Callback f)
      | CachedCallback rc \<Rightarrow>
          (case Run rc i j of Inl e \<Rightarrow> Inl e | Inr (v, rc') \<Rightarrow> Inr (v, CachedCallback rc')))"

text \<open>\<^verbatim>\<open>costs_[cost_class]->Run(node_i, node_j)\<close>.\<close>

definition Run_cost :: "RoutingModel \<Rightarrow> int \<Rightarrow> int \<Rightarrow> int \<Rightarrow> fault + (int \<times> RoutingModel)" where
  "Run_cost m cost_class node_i node_j =
     (case vec_at (costs m) cost_class of Inl e \<Rightarrow> Inl e | Inr ev \<Rightarrow>
      case Run_evaluator ev node_i node_j of Inl e \<Rightarrow> Inl e | Inr (v, ev') \<Rightarrow>
      Inr (v, m\<lparr>costs := (costs m)[nat cost_class := ev']\<rparr>))"

text \<open>The cost cache as \<^verbatim>\<open>RoutingModel::Initialize\<close> leaves it.\<close>

definition Initialize_cost_cache :: "RoutingModel \<Rightarrow> RoutingModel" where
  "Initialize_cost_cache m =
     m\<lparr>cost_cache := replicate (nat (Size m))
          \<lparr>cache_node = kUnassigned, cache_cost_class = kUnassigned, cache_cost = 0\<rparr>\<rparr>"

definition IndexToNode :: "RoutingModel \<Rightarrow> int \<Rightarrow> fault + int" where
  "IndexToNode m index = vec_at (index_to_node m) index"

definition IsStart :: "RoutingModel \<Rightarrow> int \<Rightarrow> fault + bool" where
  "IsStart m index =
     (if IsEnd m index then Inr False
      else case vec_at (index_to_vehicle m) index of
             Inl e \<Rightarrow> Inl e
           | Inr v \<Rightarrow> Inr (v \<noteq> kUnassigned))"

text \<open>The computation of \<^verbatim>\<open>cost\<close> on a cache miss (the lines between the test of the
  cache and the store into it); the sum with the fixed cost is an \<^verbatim>\<open>int64\<close> addition.\<close>

definition GetArcCost_miss :: "RoutingModel \<Rightarrow> int \<Rightarrow> int \<Rightarrow> int \<Rightarrow> fault + (int \<times> RoutingModel)" where
  "GetArcCost_miss m i j cost_class =
     (case IndexToNode m i of Inl e \<Rightarrow> Inl e | Inr node_i \<Rightarrow>
      case IndexToNode m j of Inl e \<Rightarrow> Inl e | Inr node_j \<Rightarrow>
      case IsStart m i of Inl e \<Rightarrow> Inl e | Inr is_start \<Rightarrow>
      if \<not> is_start then Run_cost m cost_class node_i node_j
      else if \<not> IsEnd m j then
        (case Run_cost m cost_class node_i node_j of Inl e \<Rightarrow> Inl e | Inr (v, m1) \<Rightarrow>
         case vec_at (index_to_vehicle m) i of Inl e \<Rightarrow> Inl e | Inr vehicle \<Rightarrow>
         case vec_at (fixed_costs m) vehicle of Inl e \<Rightarrow> Inl e | Inr fixed \<Rightarrow>
         Inr (int64 (v + fixed), m1))
      else Inr (0, m))"

definition GetArcCost :: "RoutingModel \<Rightarrow> int \<Rightarrow> int \<Rightarrow> int \<Rightarrow> fault + (int \<times> RoutingModel)" where
  "GetArcCost m i j cost_class =
     (if cost_class \<ge> 0 then
        (case vec_at (cost_cache m) i of Inl e \<Rightarrow> Inl e | Inr cache \<Rightarrow>
         if cache_node cache = j \<and> cache_cost_class cache = cost_class then Inr (cache_cost cache, m)
         else
           case GetArcCost_miss m i j cost_class of Inl e \<Rightarrow> Inl e | Inr (cost, m2) \<Rightarrow>
             Inr (cost,
                  m2\<lparr>cost_cache := (cost_cache m2)
                       [nat i := \<lparr>cache_node = j, cache_cost_class = cost_class, cache_cost = cost\<rparr>]\<rparr>))
      else Inr (0, m))"




subsection \<open>The uncached computation\<close>

text \<open>
  The reference against which the two caches are compared: the value the
  evaluator's underlying callback gives, with no table in between, and with
  the fixed cost that the vehicle has now.
\<close>

definition evaluator_callback :: "NodeEvaluator2 \<Rightarrow> int \<Rightarrow> int \<Rightarrow> int" where
  "evaluator_callback ev = (case ev of Callback f \<Rightarrow> f | CachedCallback rc \<Rightarrow> rc_callback rc)"

definition ArcCost_direct :: "RoutingModel \<Rightarrow> int \<Rightarrow> int \<Rightarrow> int \<Rightarrow> fault + int" where
  "ArcCost_direct m i j cost_class =
     (if cost_class \<ge> 0 then
        (case IndexToNode m i of Inl e \<Rightarrow> Inl e | Inr node_i \<Rightarrow>
         case IndexToNode m j of Inl e \<Rightarrow> Inl e | Inr node_j \<Rightarrow>
         case IsStart m i of Inl e \<Rightarrow> Inl e | Inr is_start \<Rightarrow>
         if \<not> is_start then
           (case vec_at (costs m) cost_class of Inl e \<Rightarrow> Inl e | Inr ev \<Rightarrow>
            Inr (evaluator_callback ev node_i node_j))
         else if \<not> IsEnd m j then
           (case vec_at (costs m) cost_class of Inl e \<Rightarrow> Inl e | Inr ev \<Rightarrow>
            case vec_at (index_to_vehicle m) i of Inl e \<Rightarrow> Inl e | Inr vehicle \<Rightarrow>
            case vec_at (fixed_costs m) vehicle of Inl e \<Rightarrow> Inl e | Inr fixed \<Rightarrow>
            Inr (int64 (evaluator_callback ev node_i node_j + fixed)))
         else Inr 0)
      else Inr 0)"


subsection \<open>Coherence of the two caches\<close>

text \<open>A filled slot of a \<^verbatim>\<open>RoutingCache\<close> holds the callback's value, and the two
  tables have the same shape.\<close>

definition RoutingCache_coherent :: "RoutingCache \<Rightarrow> bool" where
  "RoutingCache_coherent rc =
     (length (rc_cache rc) = length (rc_cached rc)
      \<and> (\<forall>i < length (rc_cached rc).
            length (rc_cache rc ! i) = length (rc_cached rc ! i)
            \<and> (\<forall>j < length (rc_cached rc ! i).
                  rc_cached rc ! i ! j \<longrightarrow> rc_cache rc ! i ! j = rc_callback rc (int i) (int j))))"

definition evaluator_coherent :: "NodeEvaluator2 \<Rightarrow> bool" where
  "evaluator_coherent ev = (case ev of Callback f \<Rightarrow> True | CachedCallback rc \<Rightarrow> RoutingCache_coherent rc)"

text \<open>A slot of the cost cache that a query can hit (its cost class is not
  negative) holds the uncached value of the arc it names.\<close>

definition cost_cache_coherent :: "RoutingModel \<Rightarrow> bool" where
  "cost_cache_coherent m =
     (\<forall>i < length (cost_cache m).
        cache_cost_class (cost_cache m ! i) \<ge> 0 \<longrightarrow>
          ArcCost_direct m (int i) (cache_node (cost_cache m ! i)) (cache_cost_class (cost_cache m ! i))
            = Inr (cache_cost (cost_cache m ! i)))"

definition caches_coherent :: "RoutingModel \<Rightarrow> bool" where
  "caches_coherent m = (cost_cache_coherent m \<and> list_all evaluator_coherent (costs m))"

text \<open>Two states of one model: everything an arc cost depends on is the same;
  only the contents of the caches may differ.\<close>

definition same_instance :: "RoutingModel \<Rightarrow> RoutingModel \<Rightarrow> bool" where
  "same_instance m m' =
     (nodes m' = nodes m \<and> vehicles m' = vehicles m \<and> start_end_count m' = start_end_count m
      \<and> index_to_node m' = index_to_node m \<and> index_to_vehicle m' = index_to_vehicle m
      \<and> fixed_costs m' = fixed_costs m
      \<and> map evaluator_callback (costs m') = map evaluator_callback (costs m))"

text \<open>The model of \<open>ex_model\<close> with its evaluator behind a \<^verbatim>\<open>RoutingCache\<close> and the cost
  cache freshly initialized.\<close>

definition ex_cached_model :: RoutingModel where
  "ex_cached_model =
     Initialize_cost_cache
       (ex_model\<lparr>costs := [NewCachedCallback True 10 ex_model (\<lambda>i j. 10 * i + j)]\<rparr>)"






text \<open>The nodes of a call lie inside the tables of the evaluator's \<^verbatim>\<open>RoutingCache\<close>, if
  it has one.\<close>

definition evaluator_covers :: "NodeEvaluator2 \<Rightarrow> int \<Rightarrow> int \<Rightarrow> bool" where
  "evaluator_covers ev i j =
     (case ev of
        Callback f \<Rightarrow> True
      | CachedCallback rc \<Rightarrow>
          0 \<le> i \<and> i < int (length (rc_cached rc)) \<and> 0 \<le> j \<and> j < int (length (rc_cached rc ! nat i)))"

section \<open>Routing model: disjunctions (routing.cc, RoutingModel::CreateDisjunction)\<close>

text \<open>
  The solver variables that \<^verbatim>\<open>CreateDisjunction\<close> touches: the active variable of
  an index, and the fresh Boolean variable \<^verbatim>\<open>no_active_var\<close> it makes for the
  disjunction.
\<close>

datatype DisjVar = ActiveVar int | NoActiveVar int

datatype DisjConstraint =
    MakeSumEquality "DisjVar list" int
  | SetMax DisjVar int

datatype DisjExpr = MakeProd DisjVar int

text \<open>The loop that fills \<^verbatim>\<open>disjunction_vars\<close>, with its \<^verbatim>\<open>CHECK_LT(node, Size())\<close>.\<close>

fun disjunction_active_vars :: "RoutingModel \<Rightarrow> int list \<Rightarrow> fault + DisjVar list" where
  "disjunction_active_vars m [] = Inr []"
| "disjunction_active_vars m (node # rest) =
     (if node < Size m then
        (case disjunction_active_vars m rest of
           Inl e \<Rightarrow> Inl e
         | Inr vs \<Rightarrow> Inr (ActiveVar node # vs))
      else Inl CheckFailed)"

text \<open>
  The result is the list of constraints and domain reductions handed to the
  solver, and the returned penalty variable (\<^verbatim>\<open>NULL\<close> is \<open>None\<close>).
\<close>

definition CreateDisjunction :: "RoutingModel \<Rightarrow> int \<Rightarrow> fault + (DisjConstraint list \<times> DisjExpr option)" where
  "CreateDisjunction m disjunction =
     (case vec_at (disjunctions m) disjunction of Inl e \<Rightarrow> Inl e | Inr dj \<Rightarrow>
      case disjunction_active_vars m (disj_nodes dj) of Inl e \<Rightarrow> Inl e | Inr active_vars \<Rightarrow>
      let no_active_var = NoActiveVar disjunction;
          disjunction_vars = active_vars @ [no_active_var];
          sum_ct = MakeSumEquality disjunction_vars 1;
          penalty = disj_penalty dj
      in if penalty < 0 then Inr ([sum_ct, SetMax no_active_var 0], None)
         else Inr ([sum_ct], Some (MakeProd no_active_var penalty)))"

text \<open>
  Modelled from the spec: the constraint solver (\<^verbatim>\<open>MakeBoolVar\<close>, \<^verbatim>\<open>MakeSumEquality\<close>,
  \<^verbatim>\<open>SetMax\<close>, \<^verbatim>\<open>MakeProd\<close>) is an external collaborator and not among the sources. A
  solution gives every variable a value; a Boolean variable takes 0 or 1; a sum
  equality holds when the values add up to the constant; \<^verbatim>\<open>SetMax\<close> bounds the
  value from above; a product expression is the variable's value times the
  constant.
\<close>

definition boolean_solution :: "(DisjVar \<Rightarrow> int) \<Rightarrow> bool" where
  "boolean_solution \<sigma> = (\<forall>v. \<sigma> v = 0 \<or> \<sigma> v = 1)"

fun satisfies :: "(DisjVar \<Rightarrow> int) \<Rightarrow> DisjConstraint \<Rightarrow> bool" where
  "satisfies \<sigma> (MakeSumEquality vs k) = (sum_list (map \<sigma> vs) = k)"
| "satisfies \<sigma> (SetMax v k) = (\<sigma> v \<le> k)"

fun expr_value :: "(DisjVar \<Rightarrow> int) \<Rightarrow> DisjExpr \<Rightarrow> int" where
  "expr_value \<sigma> (MakeProd v k) = \<sigma> v * k"

text \<open>The nodes of a disjunction that a solution makes active.\<close>

definition active_nodes :: "(DisjVar \<Rightarrow> int) \<Rightarrow> Disjunction \<Rightarrow> int set" where
  "active_nodes \<sigma> dj = {n \<in> set (disj_nodes dj). \<sigma> (ActiveVar n) = 1}"

subsection \<open>Example instances\<close>

text \<open>Two solutions of the disjunction of \<open>ex_model\<close>: node 1 active, and no node
  active.\<close>

definition ex_solution_one :: "DisjVar \<Rightarrow> int" where
  "ex_solution_one v = (if v = ActiveVar 1 then 1 else 0)"

definition ex_solution_none :: "DisjVar \<Rightarrow> int" where
  "ex_solution_none v = (if v = NoActiveVar 0 then 1 else 0)"

definition ex_mandatory_model :: RoutingModel where
  "ex_mandatory_model = ex_model\<lparr>disjunctions := [\<lparr>disj_nodes = [1, 2], disj_penalty = kNoPenalty\<rparr>]\<rparr>"

section \<open>Linear Boolean problems (sat/boolean_problem.cc)\<close>

text \<open>
  The protocol-buffer messages, with their repeated fields as lists and an
  optional field as an option. The fields \<^verbatim>\<open>literals\<close> and \<^verbatim>\<open>coefficients\<close> are parallel:
  the code reads \<^verbatim>\<open>coefficients(i)\<close> for positions \<^verbatim>\<open>i\<close> of \<^verbatim>\<open>literals\<close>. Coefficients and
  bounds are \<^verbatim>\<open>int64\<close> values. The type of the \<^verbatim>\<open>offset\<close> of the objective is declared
  in the generated protocol-buffer header, which is not among the sources; the
  code only adds to it, and it is an integer here.
\<close>

record LinearBooleanConstraint =
  literals :: "int list"
  coefficients :: "int list"
  lower_bound :: "int option"
  upper_bound :: "int option"

record LinearObjective =
  obj_literals :: "int list"
  obj_coefficients :: "int list"
  offset :: int

record LinearBooleanProblem =
  num_variables :: int
  constraints :: "LinearBooleanConstraint list"
  objective :: LinearObjective








text \<open>
  The loop shared by the two halves of \<^verbatim>\<open>MakeAllLiteralsPositive\<close>: every negative
  literal is replaced by its negation, its coefficient by the negated
  coefficient, and the coefficient is added to a running sum (\<^verbatim>\<open>objective_offset\<close>
  for the objective, \<^verbatim>\<open>sum\<close> for a constraint), all in \<^verbatim>\<open>int64\<close>. The result is the new
  literals, the new coefficients and the sum.
\<close>

fun make_terms_positive :: "int list \<Rightarrow> int list \<Rightarrow> int \<Rightarrow> fault + (int list \<times> int list \<times> int)" where
  "make_terms_positive [] cs sum_so_far = Inr ([], cs, sum_so_far)"
| "make_terms_positive (l # ls) cs sum_so_far =
     (if l < 0 then
        (case cs of
           [] \<Rightarrow> Inl OutOfBounds
         | c # cs' \<Rightarrow>
             (case make_terms_positive ls cs' (int64 (sum_so_far + c)) of
                Inl e \<Rightarrow> Inl e
              | Inr (ls', cs'', sum_after) \<Rightarrow> Inr ((- l) # ls', int64 (- c) # cs'', sum_after)))
      else
        (case make_terms_positive ls (tl cs) sum_so_far of
           Inl e \<Rightarrow> Inl e
         | Inr (ls', cs'', sum_after) \<Rightarrow> Inr (l # ls', take 1 cs @ cs'', sum_after)))"

definition make_constraint_positive :: "LinearBooleanConstraint \<Rightarrow> fault + LinearBooleanConstraint" where
  "make_constraint_positive ct =
     (case make_terms_positive (literals ct) (coefficients ct) 0 of
        Inl e \<Rightarrow> Inl e
      | Inr (ls, cs, s) \<Rightarrow>
          Inr (ct\<lparr>literals := ls, coefficients := cs,
                  lower_bound := (case lower_bound ct of None \<Rightarrow> None | Some lb \<Rightarrow> Some (int64 (lb - s))),
                  upper_bound := (case upper_bound ct of None \<Rightarrow> None | Some ub \<Rightarrow> Some (int64 (ub - s)))\<rparr>))"

fun make_constraints_positive :: "LinearBooleanConstraint list \<Rightarrow> fault + LinearBooleanConstraint list" where
  "make_constraints_positive [] = Inr []"
| "make_constraints_positive (ct # cts) =
     (case make_constraint_positive ct of
        Inl e \<Rightarrow> Inl e
      | Inr ct' \<Rightarrow>
          (case make_constraints_positive cts of
             Inl e \<Rightarrow> Inl e
           | Inr cts' \<Rightarrow> Inr (ct' # cts')))"

definition MakeAllLiteralsPositive :: "LinearBooleanProblem \<Rightarrow> fault + LinearBooleanProblem" where
  "MakeAllLiteralsPositive problem =
     (let mutable_objective = objective problem in
      case make_terms_positive (obj_literals mutable_objective) (obj_coefficients mutable_objective) 0 of
        Inl e \<Rightarrow> Inl e
      | Inr (ls, cs, objective_offset) \<Rightarrow>
          (case make_constraints_positive (constraints problem) of
             Inl e \<Rightarrow> Inl e
           | Inr cts \<Rightarrow>
               Inr (problem\<lparr>objective := mutable_objective\<lparr>obj_literals := ls, obj_coefficients := cs,
                                 offset := offset mutable_objective + objective_offset\<rparr>,
                            constraints := cts\<rparr>)))"

subsection \<open>Problems on which no operation overflows\<close>

text \<open>
  The sum of the absolute values of the coefficients of a term list bounds
  every partial sum that the code can form from it. A constraint fits when
  that sum, together with the absolute value of each bound that is present,
  stays below \<open>2 ^ 63\<close>; then no \<^verbatim>\<open>int64\<close> operation of the transformation or of the
  evaluation of the constraint overflows.
\<close>

definition abs_sum :: "int list \<Rightarrow> int" where
  "abs_sum cs = sum_list (map abs cs)"



subsection \<open>Example instances\<close>




section \<open>Symmetry graph (sat/boolean_problem.cc, GenerateGraphForSymmetryDetection)\<close>

datatype NodeType = LITERAL_NODE | CONSTRAINT_NODE | CONSTRAINT_COEFFICIENT_NODE

text \<open>
  The state the function builds: the arcs added to the graph so far (in the
  order of the \<^verbatim>\<open>AddArc\<close> calls), the vector \<^verbatim>\<open>initial_equivalence_classes\<close> (its length
  is the number of nodes so far) and the map of the \<^verbatim>\<open>IdGenerator\<close>.
\<close>

record SymmetryGraph =
  arcs :: "(nat \<times> nat) list"
  initial_equivalence_classes :: "nat list"
  id_map :: "((NodeType \<times> int) \<times> nat) list"

text \<open>\<^verbatim>\<open>IdGenerator::GetId\<close>: \<^verbatim>\<open>LookupOrInsert(&id_map_, key, id_map_.size())\<close>.\<close>

definition GetId :: "SymmetryGraph \<Rightarrow> NodeType \<Rightarrow> int \<Rightarrow> nat \<times> SymmetryGraph" where
  "GetId g type coefficient =
     (case map_of (id_map g) (type, coefficient) of
        Some ident \<Rightarrow> (ident, g)
      | None \<Rightarrow> (length (id_map g), g\<lparr>id_map := id_map g @ [((type, coefficient), length (id_map g))]\<rparr>))"

definition AddArc :: "SymmetryGraph \<Rightarrow> nat \<Rightarrow> nat \<Rightarrow> SymmetryGraph" where
  "AddArc g tail head = g\<lparr>arcs := arcs g @ [(tail, head)]\<rparr>"

definition push_class :: "SymmetryGraph \<Rightarrow> nat \<Rightarrow> SymmetryGraph" where
  "push_class g c = g\<lparr>initial_equivalence_classes := initial_equivalence_classes g @ [c]\<rparr>"

text \<open>The first loop: two nodes per variable, literal index \<open>2 i\<close> and negated
  index \<open>2 i + 1\<close>, joined in both directions.\<close>

fun add_literal_arcs :: "nat \<Rightarrow> nat \<Rightarrow> SymmetryGraph \<Rightarrow> SymmetryGraph" where
  "add_literal_arcs i 0 g = g"
| "add_literal_arcs i (Suc n) g =
     add_literal_arcs (Suc i) n (AddArc (AddArc g (2 * i) (2 * i + 1)) (2 * i + 1) (2 * i))"

text \<open>
  The loop over the canonical objective: the class of each literal that carries
  an objective coefficient. A term is a literal index with its coefficient.
\<close>

fun set_objective_classes :: "(nat \<times> int) list \<Rightarrow> SymmetryGraph \<Rightarrow> fault + SymmetryGraph" where
  "set_objective_classes [] g = Inr g"
| "set_objective_classes ((literal_index, coefficient) # expr) g =
     (if literal_index < length (initial_equivalence_classes g) then
        (case GetId g LITERAL_NODE coefficient of
           (ident, g1) \<Rightarrow>
             set_objective_classes expr
               (g1\<lparr>initial_equivalence_classes := (initial_equivalence_classes g1)[literal_index := ident]\<rparr>))
      else Inl OutOfBounds)"

text \<open>The loop over the terms of one canonical constraint.\<close>

fun add_terms :: "nat \<Rightarrow> (nat \<times> int) list \<Rightarrow> nat \<Rightarrow> int \<Rightarrow> SymmetryGraph \<Rightarrow> SymmetryGraph" where
  "add_terms constraint_node_index [] current_node_index previous_coefficient g = g"
| "add_terms constraint_node_index ((literal_index, coefficient) # terms)
       current_node_index previous_coefficient g =
     (if coefficient \<noteq> previous_coefficient then
        (let new_node_index = length (initial_equivalence_classes g) in
         case GetId g CONSTRAINT_COEFFICIENT_NODE coefficient of
           (ident, g1) \<Rightarrow>
             let g2 = push_class g1 ident;
                 g3 = AddArc (AddArc g2 constraint_node_index new_node_index)
                        new_node_index constraint_node_index;
                 g4 = AddArc (AddArc g3 new_node_index literal_index) literal_index new_node_index
             in add_terms constraint_node_index terms new_node_index coefficient g4)
      else
        (let g4 = AddArc (AddArc g current_node_index literal_index) literal_index current_node_index
         in add_terms constraint_node_index terms current_node_index previous_coefficient g4))"

text \<open>The body of the loop over the canonical constraints: a constraint is its
  right-hand side with its terms.\<close>

definition add_constraint :: "int \<times> (nat \<times> int) list \<Rightarrow> SymmetryGraph \<Rightarrow> SymmetryGraph" where
  "add_constraint ct g =
     (let constraint_node_index = length (initial_equivalence_classes g) in
      case GetId g CONSTRAINT_NODE (fst ct) of
        (ident, g1) \<Rightarrow>
          add_terms constraint_node_index (snd ct) constraint_node_index 1 (push_class g1 ident))"

fun add_constraints :: "(int \<times> (nat \<times> int) list) list \<Rightarrow> SymmetryGraph \<Rightarrow> SymmetryGraph" where
  "add_constraints [] g = g"
| "add_constraints (ct # cts) g = add_constraints cts (add_constraint ct g)"

text \<open>
  The graph before the loop over the constraints. \<open>num_vars\<close> is
  \<^verbatim>\<open>problem.num_variables()\<close>; \<open>objective_expr\<close> is the
  canonical form of the objective for a minimization or maximization problem,
  and \<open>None\<close> for any other problem type.
\<close>

definition literal_graph :: "nat \<Rightarrow> (nat \<times> int) list option \<Rightarrow> fault + SymmetryGraph" where
  "literal_graph num_vars objective_expr =
     (let g0 = add_literal_arcs 0 num_vars
                 \<lparr>arcs = [], initial_equivalence_classes = [], id_map = []\<rparr>
      in case GetId g0 LITERAL_NODE 0 of
           (ident, g1) \<Rightarrow>
             let g2 = g1\<lparr>initial_equivalence_classes := replicate (2 * num_vars) ident\<rparr>
             in (case objective_expr of
                   None \<Rightarrow> Inr g2
                 | Some expr \<Rightarrow> set_objective_classes expr g2))"

text \<open>
  Modelled from the spec: \<^verbatim>\<open>CanonicalBooleanLinearProblem\<close> and
  \<^verbatim>\<open>ComputeBooleanLinearExpressionCanonicalForm\<close> are declared in sat/pb_constraint.h,
  which is not among the sources. Canonicalising normalises literal signs so
  that all coefficients are positive and sorts the terms by coefficient; the
  canonical constraints and the canonical objective are the arguments here.
\<close>

definition GenerateGraphForSymmetryDetection ::
  "nat \<Rightarrow> (nat \<times> int) list option \<Rightarrow> (int \<times> (nat \<times> int) list) list \<Rightarrow> fault + SymmetryGraph" where
  "GenerateGraphForSymmetryDetection num_vars objective_expr canonical_problem =
     (case literal_graph num_vars objective_expr of
        Inl e \<Rightarrow> Inl e
      | Inr g \<Rightarrow> Inr (add_constraints canonical_problem g))"

subsection \<open>Reading the graph\<close>

text \<open>The node of the \<open>i\<close>-th canonical constraint: the number of nodes present when
  the loop reaches it.\<close>

definition constraint_node :: "nat \<Rightarrow> (nat \<times> int) list option \<Rightarrow> (int \<times> (nat \<times> int) list) list \<Rightarrow> nat \<Rightarrow> nat" where
  "constraint_node num_vars objective_expr canonical_problem i =
     (case GenerateGraphForSymmetryDetection num_vars objective_expr (take i canonical_problem) of
        Inl e \<Rightarrow> 0
      | Inr g \<Rightarrow> length (initial_equivalence_classes g))"

definition out_neighbours :: "SymmetryGraph \<Rightarrow> nat \<Rightarrow> nat set" where
  "out_neighbours g n = {b. (n, b) \<in> set (arcs g)}"

definition in_neighbours :: "SymmetryGraph \<Rightarrow> nat \<Rightarrow> nat set" where
  "in_neighbours g n = {a. (a, n) \<in> set (arcs g)}"

text \<open>The literal nodes of the terms that carry a given coefficient.\<close>

definition literals_with_coefficient :: "(nat \<times> int) list \<Rightarrow> int \<Rightarrow> nat set" where
  "literals_with_coefficient terms c = {l. (l, c) \<in> set terms}"

subsection \<open>Example instances\<close>

text \<open>Two variables. The first problem has the one canonical constraint
  \<open>x0 + x1 \<ge> 1\<close> (literal indices 0 and 2, both with coefficient 1); the second
  has \<open>x0 + 2 \<cdot> x1 + 2 \<cdot> \<not>x0 \<ge> 2\<close>.\<close>

definition ex_canonical_unit :: "(int \<times> (nat \<times> int) list) list" where
  "ex_canonical_unit = [(1, [(0, 1), (2, 1)])]"

definition ex_canonical_mixed :: "(int \<times> (nat \<times> int) list) list" where
  "ex_canonical_mixed = [(2, [(0, 1), (2, 2), (1, 2)])]"

text \<open>
  The arcs that \<open>add_terms\<close> appends, as a list: \<open>next_node\<close> is the index the next
  new node will get (the length of \<^verbatim>\<open>initial_equivalence_classes\<close>).
\<close>

fun term_arcs :: "nat \<Rightarrow> nat \<Rightarrow> (nat \<times> int) list \<Rightarrow> nat \<Rightarrow> int \<Rightarrow> (nat \<times> nat) list" where
  "term_arcs cn next_node [] cur prev = []"
| "term_arcs cn next_node ((l, c) # ts) cur prev =
     (if c \<noteq> prev
      then [(cn, next_node), (next_node, cn), (next_node, l), (l, next_node)]
             @ term_arcs cn (Suc next_node) ts next_node c
      else [(cur, l), (l, cur)] @ term_arcs cn next_node ts cur prev)"

text \<open>The number of nodes that \<open>add_terms\<close> creates.\<close>

fun new_nodes :: "(nat \<times> int) list \<Rightarrow> int \<Rightarrow> nat" where
  "new_nodes [] prev = 0"
| "new_nodes ((l, c) # ts) prev = (if c \<noteq> prev then Suc (new_nodes ts c) else new_nodes ts prev)"

text \<open>The graphs the function builds for the two example problems.\<close>

definition ex_unit_graph :: SymmetryGraph where
  "ex_unit_graph =
     \<lparr>arcs = [(0, 1), (1, 0), (2, 3), (3, 2), (4, 0), (0, 4), (4, 2), (2, 4)],
      initial_equivalence_classes = [0, 0, 0, 0, 1],
      id_map = [((LITERAL_NODE, 0), 0), ((CONSTRAINT_NODE, 1), 1)]\<rparr>"

definition ex_mixed_graph :: SymmetryGraph where
  "ex_mixed_graph =
     \<lparr>arcs = [(0, 1), (1, 0), (2, 3), (3, 2), (4, 0), (0, 4), (4, 5), (5, 4),
              (5, 2), (2, 5), (5, 1), (1, 5)],
      initial_equivalence_classes = [0, 0, 0, 0, 1, 2],
      id_map = [((LITERAL_NODE, 0), 0), ((CONSTRAINT_NODE, 2), 1),
                ((CONSTRAINT_COEFFICIENT_NODE, 2), 2)]\<rparr>"

section \<open>Savings heuristic (routing.cc, struct Link, LinkSort, SavingsBuilder::CreateSavingsList)\<close>

text \<open>
  \<^verbatim>\<open>struct Link\<close>. The constructor takes the value as a \<^verbatim>\<open>double\<close>; the member \<^verbatim>\<open>value\<close> is
  an \<^verbatim>\<open>int64\<close>, so the member initialiser converts.
\<close>

record Link =
  link :: "int \<times> int"
  link_value :: int
  vehicle_class :: int
  link_start_depot :: int
  link_end_depot :: int

record VehicleClass =
  start_depot :: int
  end_depot :: int
  class_index :: int

text \<open>
  The arithmetic on \<^verbatim>\<open>double\<close> that the function uses, as a parameter: the
  conversion of an \<^verbatim>\<open>int64\<close> to \<^verbatim>\<open>double\<close>, the product and the difference of two
  doubles, and the conversion of a \<^verbatim>\<open>double\<close> to \<^verbatim>\<open>int64\<close> (which discards the
  fractional part).
\<close>

record 'd DoubleOps =
  of_int64 :: "int \<Rightarrow> 'd"
  d_mul :: "'d \<Rightarrow> 'd \<Rightarrow> 'd"
  d_sub :: "'d \<Rightarrow> 'd \<Rightarrow> 'd"
  to_int64 :: "'d \<Rightarrow> int"

text \<open>The fields of \<^verbatim>\<open>SavingsBuilder\<close> that \<^verbatim>\<open>CreateSavingsList\<close> reads, as \<^verbatim>\<open>ModelSetup\<close>
  leaves them.\<close>

record 'd SavingsBuilder =
  nodes_number :: int
  sb_costs :: "int list list"
  neighbors :: "int list list"
  route_shape_parameter :: 'd
  vehicle_classes :: "VehicleClass list"

text \<open>The neighbour lists that \<^verbatim>\<open>ModelSetup\<close> builds: every node, for every node.\<close>

definition ModelSetup_neighbors :: "int \<Rightarrow> int list list" where
  "ModelSetup_neighbors n = replicate (nat n) (map int [0 ..< nat n])"

text \<open>
  \<^verbatim>\<open>sort(savings_list_.begin(), savings_list_.end(), LinkComparator)\<close> with
  \<^verbatim>\<open>LinkComparator(link1, link2) = link1.value > link2.value\<close>. \<^verbatim>\<open>std::sort\<close> leaves the
  order of links of equal value open; the embedding inserts from left to
  right, each link behind the links of equal value already placed.
\<close>

definition LinkComparator :: "Link \<Rightarrow> Link \<Rightarrow> bool" where
  "LinkComparator link1 link2 = (link_value link1 > link_value link2)"

fun insert_link :: "Link \<Rightarrow> Link list \<Rightarrow> Link list" where
  "insert_link x [] = [x]"
| "insert_link x (y # ys) = (if LinkComparator x y then x # y # ys else y # insert_link x ys)"

definition sort_links :: "Link list \<Rightarrow> Link list" where
  "sort_links xs = fold insert_link xs []"

text \<open>The body of the innermost loop, for one node and one of its neighbours.\<close>

definition add_saving ::
  "'d DoubleOps \<Rightarrow> 'd SavingsBuilder \<Rightarrow> VehicleClass \<Rightarrow> int \<Rightarrow> int \<Rightarrow> Link list \<Rightarrow> fault + Link list" where
  "add_saving ops sb vc node neighbor savings_list =
     (if node \<noteq> start_depot vc \<and> node \<noteq> end_depot vc
         \<and> neighbor \<noteq> start_depot vc \<and> neighbor \<noteq> end_depot vc \<and> node \<noteq> neighbor then
        (case vec_at (sb_costs sb) node of Inl e \<Rightarrow> Inl e | Inr costs_node \<Rightarrow>
         case vec_at costs_node (start_depot vc) of Inl e \<Rightarrow> Inl e | Inr to_start \<Rightarrow>
         case vec_at (sb_costs sb) (end_depot vc) of Inl e \<Rightarrow> Inl e | Inr costs_end \<Rightarrow>
         case vec_at costs_end neighbor of Inl e \<Rightarrow> Inl e | Inr from_end \<Rightarrow>
         case vec_at costs_node neighbor of Inl e \<Rightarrow> Inl e | Inr direct \<Rightarrow>
         let saving = d_sub ops (of_int64 ops (to_start + from_end))
                        (d_mul ops (route_shape_parameter sb) (of_int64 ops direct))
         in Inr (savings_list @
                 [\<lparr>link = (node, neighbor), link_value = to_int64 ops saving,
                   vehicle_class = class_index vc,
                   link_start_depot = start_depot vc, link_end_depot = end_depot vc\<rparr>]))
      else Inr savings_list)"

fun neighbor_loop ::
  "'d DoubleOps \<Rightarrow> 'd SavingsBuilder \<Rightarrow> VehicleClass \<Rightarrow> int \<Rightarrow> int list \<Rightarrow> Link list \<Rightarrow> fault + Link list" where
  "neighbor_loop ops sb vc node [] savings_list = Inr savings_list"
| "neighbor_loop ops sb vc node (neighbor # rest) savings_list =
     (case add_saving ops sb vc node neighbor savings_list of
        Inl e \<Rightarrow> Inl e
      | Inr savings_list' \<Rightarrow> neighbor_loop ops sb vc node rest savings_list')"

fun node_loop ::
  "'d DoubleOps \<Rightarrow> 'd SavingsBuilder \<Rightarrow> VehicleClass \<Rightarrow> int list \<Rightarrow> Link list \<Rightarrow> fault + Link list" where
  "node_loop ops sb vc [] savings_list = Inr savings_list"
| "node_loop ops sb vc (node # rest) savings_list =
     (case vec_at (neighbors sb) node of
        Inl e \<Rightarrow> Inl e
      | Inr neighbors_node \<Rightarrow>
          (case neighbor_loop ops sb vc node neighbors_node savings_list of
             Inl e \<Rightarrow> Inl e
           | Inr savings_list' \<Rightarrow> node_loop ops sb vc rest savings_list'))"

fun class_loop ::
  "'d DoubleOps \<Rightarrow> 'd SavingsBuilder \<Rightarrow> VehicleClass list \<Rightarrow> Link list \<Rightarrow> fault + Link list" where
  "class_loop ops sb [] savings_list = Inr savings_list"
| "class_loop ops sb (vc # rest) savings_list =
     (case node_loop ops sb vc (map int [0 ..< nat (nodes_number sb)]) savings_list of
        Inl e \<Rightarrow> Inl e
      | Inr savings_list' \<Rightarrow> class_loop ops sb rest (sort_links savings_list'))"

definition CreateSavingsList :: "'d DoubleOps \<Rightarrow> 'd SavingsBuilder \<Rightarrow> fault + Link list" where
  "CreateSavingsList ops sb = class_loop ops sb (vehicle_classes sb) []"

subsection \<open>The saving as the spec writes it\<close>

text \<open>\<open>c(i, s) + c(e, j) - \<lambda> \<cdot> c(i, j)\<close> over the rationals, for a cost matrix that has the
  entries.\<close>

definition saving_formula :: "int list list \<Rightarrow> rat \<Rightarrow> int \<Rightarrow> int \<Rightarrow> int \<Rightarrow> int \<Rightarrow> rat" where
  "saving_formula c lam s e i j =
     of_int (c ! nat i ! nat s) + of_int (c ! nat e ! nat j) - lam * of_int (c ! nat i ! nat j)"

subsection \<open>Example instances\<close>

text \<open>
  Arithmetic on rationals with the conversion to \<^verbatim>\<open>int64\<close> that truncates towards
  zero: what \<^verbatim>\<open>double\<close> arithmetic computes wherever its results are exact, as for
  the small integers and the parameter \<open>1/2\<close> of the example.
\<close>

definition exact_double :: "rat DoubleOps" where
  "exact_double =
     \<lparr>of_int64 = of_int, d_mul = (*), d_sub = (-),
      to_int64 = (\<lambda>x. if x \<ge> 0 then \<lfloor>x\<rfloor> else \<lceil>x\<rceil>)\<rparr>"

text \<open>Depot 0 and nodes 1, 2, 3; \<open>c(0, \<cdot>) = c(\<cdot>, 0) = 10\<close>, \<open>c(1, 2) = 2\<close>, \<open>c(1, 3) = 1\<close>,
  \<open>c(2, 3) = 1\<close>, symmetric; one vehicle class; route-shape parameter \<open>1/2\<close>.\<close>

definition ex_savings :: "rat SavingsBuilder" where
  "ex_savings =
     \<lparr>nodes_number = 4,
      sb_costs = [[0, 10, 10, 10], [10, 0, 2, 1], [10, 2, 0, 1], [10, 1, 1, 0]],
      neighbors = ModelSetup_neighbors 4,
      route_shape_parameter = 1 / 2,
      vehicle_classes = [\<lparr>start_depot = 0, end_depot = 0, class_index = 0\<rparr>]\<rparr>"

section \<open>Routing model: routes and assignments (routing.cc, RoutesToAssignment and AssignmentToRoutes)\<close>

text \<open>
  The part of a solver \<^verbatim>\<open>Assignment\<close> that the two functions touch: the elements of
  the next variables, keyed by the index of the variable, each with the bounds
  \<open>(min, max)\<close> it stores. \<^verbatim>\<open>Add\<close> stores the bounds of the variable as \<^verbatim>\<open>Initialize\<close>
  declares them; both functions overwrite or check them before any use.
\<close>

type_synonym Assignment = "int \<Rightarrow> (int \<times> int) option"

definition Contains :: "Assignment \<Rightarrow> int \<Rightarrow> bool" where
  "Contains a var = (a var \<noteq> None)"

definition Add :: "RoutingModel \<Rightarrow> Assignment \<Rightarrow> int \<Rightarrow> Assignment" where
  "Add m a var = a(var \<mapsto> (0, Size m + vehicles m - 1))"

definition SetValue :: "Assignment \<Rightarrow> int \<Rightarrow> int \<Rightarrow> Assignment" where
  "SetValue a var v = a(var \<mapsto> (v, v))"

text \<open>\<^verbatim>\<open>if (!assignment->Contains(var)) assignment->Add(var); assignment->SetValue(var, v)\<close>.\<close>

definition set_next :: "RoutingModel \<Rightarrow> Assignment \<Rightarrow> int \<Rightarrow> int \<Rightarrow> Assignment" where
  "set_next m a index v = SetValue (if \<not> Contains a index then Add m a index else a) index v"

text \<open>
  Modelled from the spec: \<^verbatim>\<open>Start\<close> and \<^verbatim>\<open>End\<close> are declared in routing.h, which is not
  among the sources; they read the vectors \<^verbatim>\<open>starts_\<close> and \<^verbatim>\<open>ends_\<close> that \<^verbatim>\<open>SetStartEnd\<close>
  fills with the start and end index of every vehicle.
\<close>

definition Start :: "RoutingModel \<Rightarrow> int \<Rightarrow> fault + int" where
  "Start m vehicle = vec_at (starts m) vehicle"

definition End :: "RoutingModel \<Rightarrow> int \<Rightarrow> fault + int" where
  "End m vehicle = vec_at (ends m) vehicle"

definition NodeToIndex :: "RoutingModel \<Rightarrow> int \<Rightarrow> fault + int" where
  "NodeToIndex m node = vec_at (node_to_index m) node"

text \<open>
  The state of the loops of \<^verbatim>\<open>RoutesToAssignment\<close>: the assignment, the set
  \<^verbatim>\<open>visited_indices\<close> and \<^verbatim>\<open>from_index\<close>. Every step yields a flag with the state:
  \<open>False\<close> is the \<^verbatim>\<open>return false\<close> of the source (after its \<^verbatim>\<open>LOG(ERROR)\<close>).
\<close>

record RouteState =
  rs_assignment :: Assignment
  visited_indices :: "int set"
  from_index :: int

text \<open>The body of the loop over the nodes of one route.\<close>

definition route_step ::
  "RoutingModel \<Rightarrow> int \<Rightarrow> bool \<Rightarrow> RouteState \<Rightarrow> int \<Rightarrow> fault + (bool \<times> RouteState)" where
  "route_step m vehicle ignore_inactive_nodes st to_node =
     (if to_node < 0 \<or> to_node \<ge> nodes m then Inr (False, st)
      else
        case NodeToIndex m to_node of Inl e \<Rightarrow> Inl e | Inr to_index \<Rightarrow>
        if to_index < 0 \<or> to_index \<ge> Size m then Inr (False, st)
        else if ActiveVar_Max m to_index = 0 then
          (if ignore_inactive_nodes then Inr (True, st) else Inr (False, st))
        else if to_index \<in> visited_indices st then Inr (False, st)
        else
          let st1 = st\<lparr>visited_indices := insert to_index (visited_indices st)\<rparr> in
          if \<not> VehicleVar_Contains m to_index vehicle then Inr (False, st1)
          else
            Inr (True,
                 st1\<lparr>rs_assignment := set_next m (rs_assignment st1) (from_index st1) to_index,
                     from_index := to_index\<rparr>))"

fun route_loop ::
  "RoutingModel \<Rightarrow> int \<Rightarrow> bool \<Rightarrow> int list \<Rightarrow> RouteState \<Rightarrow> fault + (bool \<times> RouteState)" where
  "route_loop m vehicle ignore_inactive_nodes [] st = Inr (True, st)"
| "route_loop m vehicle ignore_inactive_nodes (to_node # rest) st =
     (case route_step m vehicle ignore_inactive_nodes st to_node of
        Inl e \<Rightarrow> Inl e
      | Inr (ok, st') \<Rightarrow>
          if ok then route_loop m vehicle ignore_inactive_nodes rest st' else Inr (False, st'))"

text \<open>The body of the loop over the vehicles that have a route.\<close>

definition vehicle_step ::
  "RoutingModel \<Rightarrow> bool \<Rightarrow> bool \<Rightarrow> int \<Rightarrow> int list \<Rightarrow> RouteState \<Rightarrow> fault + (bool \<times> RouteState)" where
  "vehicle_step m ignore_inactive_nodes close_routes vehicle route st =
     (case Start m vehicle of Inl e \<Rightarrow> Inl e | Inr start \<Rightarrow>
      if start \<in> visited_indices st then Inr (False, st)
      else
        case route_loop m vehicle ignore_inactive_nodes route
               (st\<lparr>visited_indices := insert start (visited_indices st), from_index := start\<rparr>) of
          Inl e \<Rightarrow> Inl e
        | Inr (ok, st1) \<Rightarrow>
            if \<not> ok then Inr (False, st1)
            else if close_routes then
              (case End m vehicle of Inl e \<Rightarrow> Inl e | Inr end_index \<Rightarrow>
               Inr (True, st1\<lparr>rs_assignment := set_next m (rs_assignment st1) (from_index st1) end_index\<rparr>))
            else Inr (True, st1))"

fun vehicles_loop ::
  "RoutingModel \<Rightarrow> bool \<Rightarrow> bool \<Rightarrow> int \<Rightarrow> int list list \<Rightarrow> RouteState \<Rightarrow> fault + (bool \<times> RouteState)" where
  "vehicles_loop m ignore_inactive_nodes close_routes vehicle [] st = Inr (True, st)"
| "vehicles_loop m ignore_inactive_nodes close_routes vehicle (route # rest) st =
     (case vehicle_step m ignore_inactive_nodes close_routes vehicle route st of
        Inl e \<Rightarrow> Inl e
      | Inr (ok, st') \<Rightarrow>
          if ok then vehicles_loop m ignore_inactive_nodes close_routes (vehicle + 1) rest st'
          else Inr (False, st'))"

text \<open>The loop "do not use the remaining vehicles", over the vehicles from
  \<^verbatim>\<open>num_routes\<close> on.\<close>

fun unused_vehicles_loop ::
  "RoutingModel \<Rightarrow> bool \<Rightarrow> int list \<Rightarrow> RouteState \<Rightarrow> fault + (bool \<times> RouteState)" where
  "unused_vehicles_loop m close_routes [] st = Inr (True, st)"
| "unused_vehicles_loop m close_routes (vehicle # rest) st =
     (case Start m vehicle of Inl e \<Rightarrow> Inl e | Inr start_index \<Rightarrow>
      if start_index \<in> visited_indices st then Inr (False, st)
      else
        let st1 = st\<lparr>visited_indices := insert start_index (visited_indices st)\<rparr> in
        if close_routes then
          (case End m vehicle of Inl e \<Rightarrow> Inl e | Inr end_index \<Rightarrow>
           unused_vehicles_loop m close_routes rest
             (st1\<lparr>rs_assignment := set_next m (rs_assignment st1) start_index end_index\<rparr>))
        else unused_vehicles_loop m close_routes rest st1)"

text \<open>The loop that deactivates the other nodes by pointing them to themselves.\<close>

fun deactivate_loop :: "RoutingModel \<Rightarrow> int set \<Rightarrow> int list \<Rightarrow> Assignment \<Rightarrow> Assignment" where
  "deactivate_loop m visited [] a = a"
| "deactivate_loop m visited (index # rest) a =
     deactivate_loop m visited rest (if index \<notin> visited then set_next m a index index else a)"

definition RoutesToAssignment ::
  "RoutingModel \<Rightarrow> int list list \<Rightarrow> bool \<Rightarrow> bool \<Rightarrow> Assignment \<Rightarrow> fault + (bool \<times> Assignment)" where
  "RoutesToAssignment m routes ignore_inactive_nodes close_routes assignment =
     (if \<not> closed m then Inr (False, assignment)
      else
        let num_routes = int (length routes) in
        if num_routes > vehicles m then Inr (False, assignment)
        else
          case vehicles_loop m ignore_inactive_nodes close_routes 0 routes
                 \<lparr>rs_assignment = assignment, visited_indices = {}, from_index = 0\<rparr> of
            Inl e \<Rightarrow> Inl e
          | Inr (ok, st) \<Rightarrow>
              if \<not> ok then Inr (False, rs_assignment st)
              else
                case unused_vehicles_loop m close_routes
                       (map int [length routes ..< nat (vehicles m)]) st of
                  Inl e \<Rightarrow> Inl e
                | Inr (ok', st') \<Rightarrow>
                    if \<not> ok' then Inr (False, rs_assignment st')
                    else if close_routes then
                      Inr (True, deactivate_loop m (visited_indices st')
                                   (map int [0 ..< nat (Size m)]) (rs_assignment st'))
                    else Inr (True, rs_assignment st'))"

text \<open>
  The \<^verbatim>\<open>while (!IsEnd(current_index))\<close> loop of \<^verbatim>\<open>AssignmentToRoutes\<close>, with its counter
  \<^verbatim>\<open>num_visited_nodes\<close>; the three \<^verbatim>\<open>CHECK\<close>s of the body are the \<open>CheckFailed\<close> results.
\<close>

function follow_route :: "RoutingModel \<Rightarrow> Assignment \<Rightarrow> int \<Rightarrow> int \<Rightarrow> fault + int list" where
  "follow_route m a current_index num_visited_nodes =
     (if IsEnd m current_index then Inr []
      else
        case IndexToNode m current_index of Inl e \<Rightarrow> Inl e | Inr node \<Rightarrow>
        case a current_index of
          None \<Rightarrow> Inl CheckFailed
        | Some (lo, hi) \<Rightarrow>
            if lo \<noteq> hi then Inl CheckFailed
            else if num_visited_nodes + 1 > Size m then Inl CheckFailed
            else
              (case follow_route m a lo (num_visited_nodes + 1) of
                 Inl e \<Rightarrow> Inl e
               | Inr rest \<Rightarrow> Inr (node # rest)))"
  by pat_completeness auto
termination
  by (relation "measure (\<lambda>(m, a, current_index, num_visited_nodes). nat (Size m - num_visited_nodes))") auto

definition vehicle_route :: "RoutingModel \<Rightarrow> Assignment \<Rightarrow> int \<Rightarrow> fault + int list" where
  "vehicle_route m a vehicle =
     (case Start m vehicle of Inl e \<Rightarrow> Inl e | Inr first_index \<Rightarrow>
      case a first_index of
        None \<Rightarrow> Inl CheckFailed
      | Some (lo, hi) \<Rightarrow>
          if lo \<noteq> hi then Inl CheckFailed else follow_route m a lo 0)"

fun collect_routes :: "RoutingModel \<Rightarrow> Assignment \<Rightarrow> int list \<Rightarrow> fault + int list list" where
  "collect_routes m a [] = Inr []"
| "collect_routes m a (vehicle # rest) =
     (case vehicle_route m a vehicle of
        Inl e \<Rightarrow> Inl e
      | Inr route \<Rightarrow>
          (case collect_routes m a rest of
             Inl e \<Rightarrow> Inl e
           | Inr routes \<Rightarrow> Inr (route # routes)))"

definition AssignmentToRoutes :: "RoutingModel \<Rightarrow> Assignment \<Rightarrow> fault + int list list" where
  "AssignmentToRoutes m a =
     (if \<not> closed m then Inl CheckFailed
      else collect_routes m a (map int [0 ..< nat (vehicles m)]))"

subsection \<open>Reading an assignment as routes\<close>

text \<open>Consecutive indices of a list are linked by bound next variables.\<close>

fun linked :: "Assignment \<Rightarrow> int list \<Rightarrow> bool" where
  "linked a [] = True"
| "linked a [x] = True"
| "linked a (x # y # zs) = (a x = Some (y, y) \<and> linked a (y # zs))"

text \<open>
  The assignment holds the route of a vehicle: the next variables lead from the
  vehicle's start through the indices of the route's nodes, in order, to the
  vehicle's end, and the variables on the way (the keys) lie in \<open>V\<close>.
\<close>

definition encoded :: "RoutingModel \<Rightarrow> Assignment \<Rightarrow> int set \<Rightarrow> int \<Rightarrow> int list \<Rightarrow> bool" where
  "encoded m a V vehicle route =
     (\<exists>s e idxs. Start m vehicle = Inr s \<and> End m vehicle = Inr e
        \<and> list_all2 (\<lambda>node idx. NodeToIndex m node = Inr idx) route idxs
        \<and> (\<forall>i \<in> set idxs. 0 \<le> i \<and> i < Size m)
        \<and> distinct idxs \<and> set (s # idxs) \<subseteq> V
        \<and> linked a (s # idxs @ [e]))"

subsection \<open>The index tables (routing.cc, RoutingModel::SetStartEnd)\<close>

text \<open>\<^verbatim>\<open>std::vector::resize(n, v)\<close>, and a store \<^verbatim>\<open>xs[i] = v\<close>.\<close>

definition resize :: "'a list \<Rightarrow> int \<Rightarrow> 'a \<Rightarrow> 'a list" where
  "resize xs n v = take (nat n) xs @ replicate (nat n - length xs) v"

definition vec_set :: "'a list \<Rightarrow> int \<Rightarrow> 'a \<Rightarrow> fault + 'a list" where
  "vec_set xs i v = (if 0 \<le> i \<and> i < int (length xs) then Inr (xs[nat i := v]) else Inl OutOfBounds)"

text \<open>
  The first loop of \<^verbatim>\<open>SetStartEnd\<close>: the four \<^verbatim>\<open>CHECK\<close>s on every pair and the two hash
  sets \<^verbatim>\<open>starts\<close> and \<^verbatim>\<open>ends\<close>. The loops over the vehicles run over the pairs of
  \<^verbatim>\<open>start_end\<close>, which has one pair per vehicle by the \<^verbatim>\<open>CHECK_EQ\<close>.
\<close>

fun collect_depots :: "int \<Rightarrow> (int \<times> int) list \<Rightarrow> int set \<times> int set \<Rightarrow> fault + (int set \<times> int set)" where
  "collect_depots n [] sets = Inr sets"
| "collect_depots n ((start, end_node) # rest) (start_set, end_set) =
     (if start < 0 \<or> end_node < 0 \<or> start > n \<or> end_node > n then Inl CheckFailed
      else collect_depots n rest (insert start start_set, insert end_node end_set))"

text \<open>The loop over the nodes: every node that is a start, or is not an end,
  gets the next index. The state is \<^verbatim>\<open>index_to_node_\<close>, \<^verbatim>\<open>node_to_index_\<close> and \<^verbatim>\<open>index\<close>.\<close>

fun assign_node_indices ::
  "int set \<Rightarrow> int set \<Rightarrow> int list \<Rightarrow> int list \<times> int list \<times> int
     \<Rightarrow> fault + (int list \<times> int list \<times> int)" where
  "assign_node_indices start_set end_set [] st = Inr st"
| "assign_node_indices start_set end_set (i # rest) (i2n, n2i, index) =
     (if i \<in> start_set \<or> i \<notin> end_set then
        (case vec_set i2n index i of Inl e \<Rightarrow> Inl e | Inr i2n' \<Rightarrow>
         case vec_set n2i i index of Inl e \<Rightarrow> Inl e | Inr n2i' \<Rightarrow>
         assign_node_indices start_set end_set rest (i2n', n2i', index + 1))
      else assign_node_indices start_set end_set rest (i2n, n2i, index))"

text \<open>
  The loop that gives every vehicle its start index: the index of the start
  node for the first vehicle that starts there, a fresh index for the others.
  The state is \<^verbatim>\<open>node_set\<close>, \<^verbatim>\<open>starts_\<close>, \<^verbatim>\<open>index_to_node_\<close>, \<^verbatim>\<open>index_to_vehicle_\<close> and \<^verbatim>\<open>index\<close>.
\<close>

fun assign_starts ::
  "int list \<Rightarrow> (int \<times> int \<times> int) list \<Rightarrow> int set \<times> int list \<times> int list \<times> int list \<times> int
     \<Rightarrow> fault + (int set \<times> int list \<times> int list \<times> int list \<times> int)" where
  "assign_starts n2i [] st = Inr st"
| "assign_starts n2i ((i, start, end_node) # rest) (node_set, sts, i2n, i2v, index) =
     (if start \<notin> node_set then
        (case vec_at n2i start of Inl e \<Rightarrow> Inl e | Inr start_index \<Rightarrow>
         case vec_set sts i start_index of Inl e \<Rightarrow> Inl e | Inr sts' \<Rightarrow>
         if start_index = kUnassigned then Inl CheckFailed
         else
           case vec_set i2v start_index i of Inl e \<Rightarrow> Inl e | Inr i2v' \<Rightarrow>
           assign_starts n2i rest (insert start node_set, sts', i2n, i2v', index))
      else
        (case vec_set sts i index of Inl e \<Rightarrow> Inl e | Inr sts' \<Rightarrow>
         case vec_set i2n index start of Inl e \<Rightarrow> Inl e | Inr i2n' \<Rightarrow>
         case vec_set i2v index i of Inl e \<Rightarrow> Inl e | Inr i2v' \<Rightarrow>
         assign_starts n2i rest (node_set, sts', i2n', i2v', index + 1)))"

text \<open>The loop that gives every vehicle its end index, with its \<^verbatim>\<open>CHECK_LE(size, index)\<close>.
  The state is \<^verbatim>\<open>index_to_node_\<close>, \<^verbatim>\<open>ends_\<close>, \<^verbatim>\<open>index_to_vehicle_\<close> and \<^verbatim>\<open>index\<close>.\<close>

fun assign_ends ::
  "int \<Rightarrow> (int \<times> int \<times> int) list \<Rightarrow> int list \<times> int list \<times> int list \<times> int
     \<Rightarrow> fault + (int list \<times> int list \<times> int list \<times> int)" where
  "assign_ends n [] st = Inr st"
| "assign_ends n ((i, start, end_node) # rest) (i2n, es, i2v, index) =
     (case vec_set i2n index end_node of Inl e \<Rightarrow> Inl e | Inr i2n' \<Rightarrow>
      case vec_set es i index of Inl e \<Rightarrow> Inl e | Inr es' \<Rightarrow>
      if \<not> n \<le> index then Inl CheckFailed
      else
        case vec_set i2v index i of Inl e \<Rightarrow> Inl e | Inr i2v' \<Rightarrow>
        assign_ends n rest (i2n', es', i2v', index + 1))"

text \<open>
  \<^verbatim>\<open>SetStartEnd\<close>. The constraints that its last loop posts belong to the solver
  and are not part of the tables.
\<close>

definition SetStartEnd :: "RoutingModel \<Rightarrow> (int \<times> int) list \<Rightarrow> fault + RoutingModel" where
  "SetStartEnd m start_end =
     (if is_depot_set m then Inr m
      else if int (length start_end) \<noteq> vehicles m then Inl CheckFailed
      else
        let n = Size m;
            vehicle_pairs = zip (map int [0 ..< length start_end]) start_end in
        case collect_depots (nodes m) start_end ({}, {}) of Inl e \<Rightarrow> Inl e
        | Inr (start_set, end_set) \<Rightarrow>
        case assign_node_indices start_set end_set (map int [0 ..< nat (nodes m)])
               (resize (index_to_node m) (n + vehicles m) 0,
                resize (node_to_index m) (nodes m) kUnassigned, 0) of Inl e \<Rightarrow> Inl e
        | Inr (i2n1, n2i, index1) \<Rightarrow>
        case assign_starts n2i vehicle_pairs
               ({}, starts m, i2n1, resize (index_to_vehicle m) (n + vehicles m) kUnassigned, index1) of
          Inl e \<Rightarrow> Inl e
        | Inr (node_set, sts, i2n2, i2v2, index2) \<Rightarrow>
        case assign_ends n vehicle_pairs (i2n2, ends m, i2v2, index2) of Inl e \<Rightarrow> Inl e
        | Inr (i2n3, es, i2v3, index3) \<Rightarrow>
            Inr (m\<lparr>starts := sts, ends := es, index_to_node := i2n3, node_to_index := n2i,
                   index_to_vehicle := i2v3, is_depot_set := True\<rparr>))"

definition SetDepot :: "RoutingModel \<Rightarrow> int \<Rightarrow> fault + RoutingModel" where
  "SetDepot m depot = SetStartEnd m (replicate (nat (vehicles m)) (depot, depot))"

text \<open>The tables as the constructor \<^verbatim>\<open>RoutingModel(nodes, vehicles)\<close> leaves them.\<close>

definition freshly_constructed :: "RoutingModel \<Rightarrow> bool" where
  "freshly_constructed m =
     (\<not> is_depot_set m \<and> index_to_node m = [] \<and> node_to_index m = [] \<and> index_to_vehicle m = []
      \<and> length (starts m) = nat (vehicles m) \<and> length (ends m) = nat (vehicles m))"

text \<open>Every node index that has a variable index is mapped back by \<open>i2n\<close>, and the
  variable indices handed out lie below \<open>index\<close>.\<close>

definition indices_inverse :: "int list \<Rightarrow> int list \<Rightarrow> int \<Rightarrow> bool" where
  "indices_inverse i2n n2i index =
     (\<forall>node < length n2i. 0 \<le> n2i ! node \<longrightarrow>
        n2i ! node < index \<and> nat (n2i ! node) < length i2n \<and> i2n ! nat (n2i ! node) = int node)"

text \<open>
  What \<^verbatim>\<open>SetStartEnd\<close> establishes for the index space: the index of a visit node
  maps back to the node, and the end of every vehicle is an end index.
\<close>

definition index_space_consistent :: "RoutingModel \<Rightarrow> bool" where
  "index_space_consistent m =
     ((\<forall>node idx. NodeToIndex m node = Inr idx \<and> 0 \<le> idx \<and> idx < Size m
          \<longrightarrow> IndexToNode m idx = Inr node)
      \<and> (\<forall>vehicle e. End m vehicle = Inr e \<longrightarrow> IsEnd m e))"

text \<open>No node of the routes has an active variable whose maximum is 0.\<close>

definition no_inactive_node :: "RoutingModel \<Rightarrow> int list list \<Rightarrow> bool" where
  "no_inactive_node m routes =
     (\<forall>route \<in> set routes. \<forall>node \<in> set route. \<forall>idx.
        NodeToIndex m node = Inr idx \<longrightarrow> ActiveVar_Max m idx \<noteq> 0)"

subsection \<open>Example instances\<close>

text \<open>Four nodes, node 0 the depot of two vehicles: indices 0..3 are the nodes
  (0 is the start of vehicle 0), 4 is the start of vehicle 1, 5 and 6 are the
  ends.\<close>

definition ex_two_vehicles :: RoutingModel where
  "ex_two_vehicles =
     \<lparr>nodes = 4, vehicles = 2, start_end_count = 1, starts = [0, 4], ends = [5, 6],
      index_to_node = [0, 1, 2, 3, 0, 0, 0], node_to_index = [0, 1, 2, 3],
      index_to_vehicle = [0, -1, -1, -1, 1, 0, 1],
      is_depot_set = True, closed = True, costs = [], fixed_costs = [0, 0], cost_cache = [],
      disjunctions = [], node_to_disjunction = [-1, -1, -1, -1, -1],
      ActiveVar_Max = (\<lambda>i. 1), VehicleVar_Contains = (\<lambda>i v. True),
      CostVar_Min = 0, CostVar_Max = 1000\<rparr>"

text \<open>The same model as the constructor \<^verbatim>\<open>RoutingModel(4, 2)\<close> leaves it, before
  \<^verbatim>\<open>SetDepot(0)\<close> and the closing of the model.\<close>

definition ex_constructed :: RoutingModel where
  "ex_constructed =
     ex_two_vehicles\<lparr>starts := [0, 0], ends := [0, 0], index_to_node := [], node_to_index := [],
       index_to_vehicle := [], is_depot_set := False, closed := False\<rparr>"

section \<open>Properties: search status\<close>

text \<open>
  C5. If exactly one solution was collected, Solve returns it with status
  Success; otherwise it returns no assignment, and the status is FailTimeout
  exactly when the elapsed wall time is at least the time limit and Fail
  otherwise (the two failure statuses are different values).
\<close>

theorem C5_solve_status:
  "(length (collected ob) = 1 \<longrightarrow> Solve ob = (Some (hd (collected ob)), ROUTING_SUCCESS))
   \<and> (length (collected ob) \<noteq> 1 \<longrightarrow>
        fst (Solve ob) = None
        \<and> (snd (Solve ob) = ROUTING_FAIL_TIMEOUT
             \<longleftrightarrow> end_time_ms ob - start_time_ms ob \<ge> time_limit_ms ob)
        \<and> (snd (Solve ob) = ROUTING_FAIL
             \<longleftrightarrow> end_time_ms ob - start_time_ms ob < time_limit_ms ob))
   \<and> ROUTING_FAIL_TIMEOUT \<noteq> ROUTING_FAIL"
  by (cases "collected ob") (auto simp: Solve_def Let_def)

theorem C5_solve_status_witness:
  "Solve \<lparr>start_time_ms = 0, end_time_ms = 50, collected = [7::nat], time_limit_ms = 10\<rparr>
     = (Some 7, ROUTING_SUCCESS)
   \<and> Solve \<lparr>start_time_ms = 0, end_time_ms = 50, collected = ([]::nat list), time_limit_ms = 10\<rparr>
     = (None, ROUTING_FAIL_TIMEOUT)
   \<and> Solve \<lparr>start_time_ms = 0, end_time_ms = 5, collected = ([]::nat list), time_limit_ms = 10\<rparr>
     = (None, ROUTING_FAIL)"
  using C5_solve_status [of "\<lparr>start_time_ms = 0, end_time_ms = 50, collected = [7::nat], time_limit_ms = 10\<rparr>"]
    C5_solve_status [of "\<lparr>start_time_ms = 0, end_time_ms = 50, collected = ([]::nat list), time_limit_ms = 10\<rparr>"]
    C5_solve_status [of "\<lparr>start_time_ms = 0, end_time_ms = 5, collected = ([]::nat list), time_limit_ms = 10\<rparr>"]
  by (simp add: Solve_def prod_eq_iff)

section \<open>Properties: node disjunction filter\<close>

lemma LookupOrInsert_add_keys:
  "fst ` set (LookupOrInsert_add acc k x) = insert k (fst ` set acc)"
  by (induction acc k x rule: LookupOrInsert_add.induct) auto

lemma LookupOrInsert_add_sorted:
  "sorted_wrt (<) (map fst acc) \<Longrightarrow> sorted_wrt (<) (map fst (LookupOrInsert_add acc k x))"
proof (induction acc k x rule: LookupOrInsert_add.induct)
  case (1 k d)
  then show ?case by simp
next
  case (2 k' v m k d)
  show ?case
  proof (cases "k = k'")
    case True
    with 2 show ?thesis by simp
  next
    case ne: False
    show ?thesis
    proof (cases "k < k'")
      case True
      with 2 ne show ?thesis by auto
    next
      case False
      with ne have gt: "k' < k" by simp
      from 2 ne False have s: "sorted_wrt (<) (map fst (LookupOrInsert_add m k d))" by simp
      have "\<forall>y \<in> fst ` set (LookupOrInsert_add m k d). k' < y"
        using 2(2) gt by (auto simp: LookupOrInsert_add_keys)
      with s ne False show ?thesis by auto
    qed
  qed
qed

lemma LookupOrInsert_add_lookup:
  "sorted_wrt (<) (map fst acc) \<Longrightarrow>
   lookup0 (LookupOrInsert_add acc k x) d = lookup0 acc d + (if d = k then x else 0)"
proof (induction acc k x rule: LookupOrInsert_add.induct)
  case (1 k d)
  then show ?case by (simp add: lookup0_def)
next
  case (2 k' v m k x)
  show ?case
  proof (cases "k = k'")
    case True
    then show ?thesis by (simp add: lookup0_def)
  next
    case ne: False
    show ?thesis
    proof (cases "k < k'")
      case True
      with 2(2) have "k \<notin> fst ` set m" by auto
      then have "map_of m k = None" by (simp add: map_of_eq_None_iff)
      with True ne show ?thesis by (simp add: lookup0_def)
    next
      case False
      from 2 ne False have "lookup0 (LookupOrInsert_add m k x) d = lookup0 m d + (if d = k then x else 0)"
        by simp
      with ne False show ?thesis by (auto simp: lookup0_def)
    qed
  qed
qed

lemma FindIndex_from_range:
  "FindIndex_from xs v k = Some i \<Longrightarrow> k \<le> i \<and> i < k + int (length xs)"
proof (induction xs arbitrary: k)
  case Nil
  then show ?case by simp
next
  case (Cons x xs)
  show ?case
  proof (cases "x = v")
    case True
    with Cons.prems show ?thesis by simp
  next
    case False
    with Cons.prems have "FindIndex_from xs v (k + 1) = Some i" by simp
    from Cons.IH [OF this] show ?thesis by simp
  qed
qed

lemma FindIndex_range:
  "FindIndex f v = Some i \<Longrightarrow> 0 \<le> i \<and> i < int (length (filter_vars f))"
  using FindIndex_from_range [of "filter_vars f" v 0 i] by (simp add: FindIndex_def)

lemma activity_changes_Cons:
  "activity_changes f m (e # es) =
     (case activity_change f m e of None \<Rightarrow> [] | Some p \<Rightarrow> [p]) @ activity_changes f m es"
  by (simp add: activity_changes_def List.map_filter_simps split: option.splits)

lemma net_change_append: "net_change (xs @ ys) d = net_change xs d + net_change ys d"
  by (simp add: net_change_def)

lemma activity_change_in_bounds:
  assumes "filter_in_bounds f m" and "activity_change f m e = Some (d, x)"
  shows "0 \<le> d \<and> d < int (length (active_per_disjunction f))"
proof -
  from assms(2) obtain index where
    "vec_at (node_to_disjunction m) index = Inr d" and ne: "d \<noteq> kNoDisjunction"
    by (auto simp: activity_change_def split: option.splits sum.splits if_splits)
  then have "d \<in> set (node_to_disjunction m)" by (auto simp: vec_at_def split: if_splits)
  with assms(1) ne show ?thesis by (auto simp: filter_in_bounds_def list_all_iff)
qed

lemma Accept_element_spec:
  assumes wf: "filter_in_bounds f m" and srt: "sorted_wrt (<) (map fst acc)"
  shows "\<exists>acc'. Accept_element f m e (acc, l) = Inr (acc', l \<or> sets_lns_detected f m e)
           \<and> sorted_wrt (<) (map fst acc')
           \<and> fst ` set acc' = fst ` set acc \<union> fst ` set (activity_changes f m [e])
           \<and> (\<forall>d. lookup0 acc' d = lookup0 acc d + net_change (activity_changes f m [e]) d)"
proof (cases "FindIndex f (elt_var e)")
  case None
  then show ?thesis using srt
    by (simp add: Accept_element_def sets_lns_detected_def activity_changes_Cons activity_change_def
          activity_changes_def net_change_def)
next
  case (Some index)
  from FindIndex_range [OF Some] wf obtain d val where
    d: "vec_at (node_to_disjunction m) index = Inr d" and
    v: "vec_at (filter_values f) index = Inr val"
    by (auto simp: filter_in_bounds_def vec_at_def)
  show ?thesis
  proof (cases "d = kNoDisjunction")
    case True
    with Some d show ?thesis using srt
      by (simp add: Accept_element_def sets_lns_detected_def activity_changes_Cons activity_change_def
            activity_changes_def net_change_def)
  next
    case False
    let ?was = "val = index"
    let ?is = "elt_min e \<le> index \<and> index \<le> elt_max e"
    have lns: "sets_lns_detected f m e = (elt_min e \<noteq> elt_max e)"
      using Some d False by (simp add: sets_lns_detected_def)
    consider (up) "?was \<and> \<not> ?is" | (down) "\<not> ?was \<and> ?is" | (same) "\<not> (?was \<and> \<not> ?is) \<and> \<not> (\<not> ?was \<and> ?is)"
      by blast
    then show ?thesis
    proof cases
      case up
      then have ch: "activity_change f m e = Some (d, 1)"
        using Some d v False by (simp add: activity_change_def)
      from up have el: "Accept_element f m e (acc, l)
           = Inr (LookupOrInsert_add acc d 1, l \<or> sets_lns_detected f m e)"
        using Some d v False lns by (auto simp: Accept_element_def Let_def)
      show ?thesis
        unfolding el activity_changes_Cons ch
        using LookupOrInsert_add_sorted [OF srt, of d 1] LookupOrInsert_add_keys [of acc d 1]
          LookupOrInsert_add_lookup [OF srt, of d 1]
        by (auto simp: activity_changes_def net_change_def)
    next
      case down
      then have ch: "activity_change f m e = Some (d, - 1)"
        using Some d v False by (auto simp: activity_change_def)
      from down have el: "Accept_element f m e (acc, l)
           = Inr (LookupOrInsert_add acc d (- 1), l \<or> sets_lns_detected f m e)"
        using Some d v False lns by (auto simp: Accept_element_def Let_def)
      show ?thesis
        unfolding el activity_changes_Cons ch
        using LookupOrInsert_add_sorted [OF srt, of d "- 1"] LookupOrInsert_add_keys [of acc d "- 1"]
          LookupOrInsert_add_lookup [OF srt, of d "- 1"]
        by (auto simp: activity_changes_def net_change_def)
    next
      case same
      then have ch: "activity_change f m e = None"
        using Some d v False by (auto simp: activity_change_def)
      from same have el: "Accept_element f m e (acc, l) = Inr (acc, l \<or> sets_lns_detected f m e)"
        using Some d v False lns by (auto simp: Accept_element_def Let_def)
      show ?thesis
        unfolding el activity_changes_Cons ch using srt
        by (simp add: activity_changes_def net_change_def)
    qed
  qed
qed

lemma Accept_scan_spec:
  assumes wf: "filter_in_bounds f m" and srt: "sorted_wrt (<) (map fst acc)"
  shows "\<exists>acc'. Accept_scan f m delta (acc, l) = Inr (acc', l \<or> (\<exists>e \<in> set delta. sets_lns_detected f m e))
           \<and> sorted_wrt (<) (map fst acc')
           \<and> fst ` set acc' = fst ` set acc \<union> fst ` set (activity_changes f m delta)
           \<and> (\<forall>d. lookup0 acc' d = lookup0 acc d + net_change (activity_changes f m delta) d)"
  using srt
proof (induction delta arbitrary: acc l)
  case Nil
  then show ?case by (simp add: activity_changes_def net_change_def)
next
  case (Cons e es)
  from Accept_element_spec [OF wf Cons.prems, of e l] obtain acc1 where
    el: "Accept_element f m e (acc, l) = Inr (acc1, l \<or> sets_lns_detected f m e)"
    and s1: "sorted_wrt (<) (map fst acc1)"
    and k1: "fst ` set acc1 = fst ` set acc \<union> fst ` set (activity_changes f m [e])"
    and l1: "\<forall>d. lookup0 acc1 d = lookup0 acc d + net_change (activity_changes f m [e]) d"
    by blast
  from Cons.IH [OF s1, of "l \<or> sets_lns_detected f m e"] obtain acc' where
    sc: "Accept_scan f m es (acc1, l \<or> sets_lns_detected f m e)
           = Inr (acc', (l \<or> sets_lns_detected f m e) \<or> (\<exists>e \<in> set es. sets_lns_detected f m e))"
    and s2: "sorted_wrt (<) (map fst acc')"
    and k2: "fst ` set acc' = fst ` set acc1 \<union> fst ` set (activity_changes f m es)"
    and l2: "\<forall>d. lookup0 acc' d = lookup0 acc1 d + net_change (activity_changes f m es) d"
    by blast
  have app: "activity_changes f m (e # es) = activity_changes f m [e] @ activity_changes f m es"
    by (simp add: activity_changes_Cons) (simp add: activity_changes_def)
  have "Accept_scan f m (e # es) (acc, l)
          = Inr (acc', l \<or> (\<exists>e \<in> set (e # es). sets_lns_detected f m e))"
    using el sc by auto
  moreover have "fst ` set acc' = fst ` set acc \<union> fst ` set (activity_changes f m (e # es))"
    unfolding app using k1 k2 by auto
  moreover have "\<forall>d. lookup0 acc' d = lookup0 acc d + net_change (activity_changes f m (e # es)) d"
    unfolding app net_change_append using l1 l2 by simp
  ultimately show ?case using s2 by blast
qed

lemma Accept_totals_lns:
  assumes "\<forall>p \<in> set acc. 0 \<le> fst p \<and> fst p < int (length (active_per_disjunction f))"
  shows "Accept_totals f m True acc obj
           = Inr (if \<forall>p \<in> set acc. active_per_disjunction f ! nat (fst p) + snd p \<le> 1
                  then Some obj else None)"
  using assms
proof (induction acc)
  case Nil
  then show ?case by simp
next
  case (Cons p acc)
  obtain d x where p: "p = (d, x)" by (cases p)
  from Cons.prems p have a: "vec_at (active_per_disjunction f) d = Inr (active_per_disjunction f ! nat d)"
    by (simp add: vec_at_def)
  from Cons have ih: "Accept_totals f m True acc obj
           = Inr (if \<forall>p \<in> set acc. active_per_disjunction f ! nat (fst p) + snd p \<le> 1
                  then Some obj else None)" by simp
  show ?case unfolding p by (simp add: a ih Let_def)
qed

lemma sorted_lookup0:
  assumes "sorted_wrt (<) (map fst acc)" and "(d, x) \<in> set acc"
  shows "lookup0 acc d = x"
proof -
  from assms(1) have "distinct (map fst acc)" using strict_sorted_iff by blast
  with assms(2) show ?thesis by (simp add: lookup0_def)
qed

lemma activity_changes_in_bounds:
  assumes "filter_in_bounds f m" and "p \<in> set (activity_changes f m delta)"
  shows "0 \<le> fst p \<and> fst p < int (length (active_per_disjunction f))"
proof -
  from assms(2) obtain e where "activity_change f m e = Some p"
    by (auto simp: activity_changes_def List.map_filter_def)
  then have "activity_change f m e = Some (fst p, snd p)" by simp
  from activity_change_in_bounds [OF assms(1) this] show ?thesis .
qed

text \<open>
  C1 (as stated). "If some changed element of the delta has a non-singleton
  domain, Accept returns true, whatever happens to the per-disjunction active
  counts." This fails: in \<open>ex_filter_full\<close> disjunction 0 already has one active
  node; the delta releases the next variable of the inactive node 2 to the
  domain 0..1, which excludes 2, so the node counts as activated, the
  disjunction would hold two active nodes, and \<^verbatim>\<open>Accept\<close> returns false before it
  looks at \<^verbatim>\<open>lns_detected\<close>.
\<close>

theorem C1_accept_lns_counterexample:
  "elt_min ex_lns_element \<noteq> elt_max ex_lns_element
   \<and> sets_lns_detected ex_filter_full ex_model ex_lns_element
   \<and> Accept ex_filter_full ex_model [ex_lns_element] = Inr False"
  by (simp add: Accept_def Accept_element_def FindIndex_def sets_lns_detected_def
        ex_filter_full_def ex_model_def ex_lns_element_def vec_at_def kNoDisjunction_def)

text \<open>
  C1 (amended). When the vectors of the filter and of the model have their
  sizes, and some changed element that is a watched next variable of a node in
  a disjunction has a non-singleton domain, Accept returns true if no
  disjunction touched by the delta would hold more than one active node after
  it, and false otherwise; the penalties and the bounds of the cost variable
  are not consulted.
\<close>

theorem C1_accept_lns_within_one_active:
  assumes "filter_in_bounds f m" and "\<exists>e \<in> set delta. sets_lns_detected f m e"
  shows "Accept f m delta
           = Inr (\<forall>d \<in> set (touched_disjunctions f m delta). active_after f m delta d \<le> 1)"
proof -
  have "sorted_wrt (<) (map fst ([] :: (int \<times> int) list))" by simp
  from Accept_scan_spec [OF assms(1) this, of delta False] assms(2) obtain acc where
    scan: "Accept_scan f m delta ([], False) = Inr (acc, True)"
    and srt: "sorted_wrt (<) (map fst acc)"
    and keys: "fst ` set acc = fst ` set (activity_changes f m delta)"
    and look: "\<forall>d. lookup0 acc d = net_change (activity_changes f m delta) d"
    by (auto simp: lookup0_def)
  have bounds: "\<forall>p \<in> set acc. 0 \<le> fst p \<and> fst p < int (length (active_per_disjunction f))"
  proof
    fix p assume "p \<in> set acc"
    then have "fst p \<in> fst ` set (activity_changes f m delta)" using keys by blast
    then obtain q where "q \<in> set (activity_changes f m delta)" "fst q = fst p" by auto
    with activity_changes_in_bounds [OF assms(1)] show "0 \<le> fst p \<and> fst p < int (length (active_per_disjunction f))"
      by metis
  qed
  have entries: "snd p = net_change (activity_changes f m delta) (fst p)" if "p \<in> set acc" for p
  proof -
    from that have "(fst p, snd p) \<in> set acc" by simp
    from sorted_lookup0 [OF srt this] look show ?thesis by simp
  qed
  have iff: "(\<forall>p \<in> set acc. active_per_disjunction f ! nat (fst p) + snd p \<le> 1)
         \<longleftrightarrow> (\<forall>d \<in> set (touched_disjunctions f m delta). active_after f m delta d \<le> 1)"
  proof
    assume l: "\<forall>p \<in> set acc. active_per_disjunction f ! nat (fst p) + snd p \<le> 1"
    show "\<forall>d \<in> set (touched_disjunctions f m delta). active_after f m delta d \<le> 1"
    proof
      fix d assume "d \<in> set (touched_disjunctions f m delta)"
      then have "d \<in> fst ` set acc" using keys by (simp add: touched_disjunctions_def)
      then obtain p where p: "p \<in> set acc" "fst p = d" by auto
      with l entries [OF p(1)] show "active_after f m delta d \<le> 1"
        by (auto simp: active_after_def)
    qed
  next
    assume r: "\<forall>d \<in> set (touched_disjunctions f m delta). active_after f m delta d \<le> 1"
    show "\<forall>p \<in> set acc. active_per_disjunction f ! nat (fst p) + snd p \<le> 1"
    proof
      fix p assume p: "p \<in> set acc"
      then have "fst p \<in> set (touched_disjunctions f m delta)"
        using keys by (auto simp: touched_disjunctions_def)
      with r entries [OF p] show "active_per_disjunction f ! nat (fst p) + snd p \<le> 1"
        by (auto simp: active_after_def)
    qed
  qed
  show ?thesis
    unfolding Accept_def scan using Accept_totals_lns [OF bounds, of m] iff by simp
qed

theorem C1_accept_lns_within_one_active_witness:
  "filter_in_bounds ex_filter_full ex_model
   \<and> sets_lns_detected ex_filter_full ex_model ex_release_element
   \<and> touched_disjunctions ex_filter_full ex_model [ex_release_element, ex_bind_element] = [0, 0]
   \<and> active_after ex_filter_full ex_model [ex_release_element, ex_bind_element] 0 = 1
   \<and> Accept ex_filter_full ex_model [ex_release_element, ex_bind_element] = Inr True
   \<and> active_after ex_filter_full ex_model [ex_lns_element] 0 = 2
   \<and> Accept ex_filter_full ex_model [ex_lns_element] = Inr False"
proof -
  have wf: "filter_in_bounds ex_filter_full ex_model" by code_simp
  have lns: "sets_lns_detected ex_filter_full ex_model ex_release_element" by code_simp
  have lns2: "sets_lns_detected ex_filter_full ex_model ex_lns_element" by code_simp
  have t: "touched_disjunctions ex_filter_full ex_model [ex_release_element, ex_bind_element] = [0, 0]"
    by code_simp
  have a: "active_after ex_filter_full ex_model [ex_release_element, ex_bind_element] 0 = 1"
    by code_simp
  have t2: "touched_disjunctions ex_filter_full ex_model [ex_lns_element] = [0]" by code_simp
  have a2: "active_after ex_filter_full ex_model [ex_lns_element] 0 = 2" by code_simp
  from lns have ex: "\<exists>e \<in> set [ex_release_element, ex_bind_element]. sets_lns_detected ex_filter_full ex_model e"
    by simp
  from lns2 have ex2: "\<exists>e \<in> set [ex_lns_element]. sets_lns_detected ex_filter_full ex_model e" by simp
  from C1_accept_lns_within_one_active [OF wf ex] C1_accept_lns_within_one_active [OF wf ex2]
    wf lns t a t2 a2
  show ?thesis by simp
qed

section \<open>Properties: FlatZinc constraint dispatch\<close>

lemma run_cascade_no_match:
  "ct_type ct \<notin> fst ` set tbl \<Longrightarrow> run_cascade tbl s ct = Inr s"
  by (induction tbl) auto

lemma ExtractConstraint_unmatched:
  "ct_type ct \<notin> fst ` set dispatch_cascade \<Longrightarrow> ExtractConstraint s ct = Inr s"
  by (simp add: ExtractConstraint_def run_cascade_no_match)

text \<open>
  What the code does for a tag that the cascade names and whose handler is a
  stub: extraction stops with a "not implemented" error. Shown here for
  \<^verbatim>\<open>int_times\<close>, with any arguments and any solver state.
\<close>

lemma ExtractConstraint_int_times_not_implemented:
  "ExtractConstraint s \<lparr>ct_type = ''int_times'', ct_arguments = args, target_variable = tv\<rparr>
     = Inl (NotImplemented ''int_times'')"
  by (simp add: ExtractConstraint_def dispatch_cascade_def ExtractNotImplemented_def)

text \<open>
  C2. The claim asks that a constraint whose tag has no handler stops
  extraction with an error and is never dropped silently. The code does not do
  this for a tag outside the cascade: \<^verbatim>\<open>int_pow\<close> matches no branch, there is no
  final \<^verbatim>\<open>else\<close>, and \<^verbatim>\<open>ExtractConstraint\<close> returns with the solver unchanged: no
  error and no constraint.
\<close>

theorem C2_unmatched_tag_dropped_silently:
  "ExtractConstraint ex_solver ex_int_pow = Inr ex_solver
   \<and> posted ex_solver = []
   \<and> ct_type ex_int_pow \<notin> fst ` set dispatch_cascade"
  by (simp add: ExtractConstraint_def dispatch_cascade_def ex_int_pow_def ex_solver_def)

section \<open>Properties: arc costs and their caches\<close>

lemma vec_at_Inr: "vec_at xs i = Inr x \<longleftrightarrow> 0 \<le> i \<and> i < int (length xs) \<and> x = xs ! nat i"
  by (auto simp: vec_at_def)

lemma RoutingCache_new_coherent: "RoutingCache_coherent (RoutingCache_new callback n)"
  by (simp add: RoutingCache_coherent_def RoutingCache_new_def)

lemma Run_sound:
  assumes "RoutingCache_coherent rc" and "Run rc i j = Inr (v, rc')"
  shows "v = rc_callback rc i j \<and> RoutingCache_coherent rc' \<and> rc_callback rc' = rc_callback rc"
proof -
  from assms(2) obtain cached_i hit cache_i stored where
    r: "vec_at (rc_cached rc) i = Inr cached_i" "vec_at cached_i j = Inr hit"
       "vec_at (rc_cache rc) i = Inr cache_i" "vec_at cache_i j = Inr stored"
    by (auto simp: Run_def split: sum.splits)
  then have rng: "0 \<le> i" "nat i < length (rc_cached rc)" "0 \<le> j" "nat j < length (rc_cached rc ! nat i)"
    and eqs: "cached_i = rc_cached rc ! nat i" "hit = cached_i ! nat j"
      "cache_i = rc_cache rc ! nat i" "stored = cache_i ! nat j"
    by (auto simp: vec_at_Inr)
  show ?thesis
  proof (cases hit)
    case True
    with assms(2) r have "v = stored" "rc' = rc" by (auto simp: Run_def)
    moreover from assms(1) rng True eqs have "stored = rc_callback rc (int (nat i)) (int (nat j))"
      by (auto simp: RoutingCache_coherent_def)
    ultimately show ?thesis using assms(1) rng by simp
  next
    case False
    with assms(2) r have v: "v = rc_callback rc i j"
      and rc': "rc' = rc\<lparr>rc_cached := (rc_cached rc)[nat i := cached_i[nat j := True]],
                rc_cache := (rc_cache rc)[nat i := cache_i[nat j := v]]\<rparr>"
      by (auto simp: Run_def Let_def)
    have "RoutingCache_coherent rc'"
      unfolding RoutingCache_coherent_def
    proof (intro conjI allI impI)
      show "length (rc_cache rc') = length (rc_cached rc')"
        using assms(1) rc' by (simp add: RoutingCache_coherent_def)
    next
      fix a assume a: "a < length (rc_cached rc')"
      show "length (rc_cache rc' ! a) = length (rc_cached rc' ! a)"
        using assms(1) rc' a eqs by (cases "a = nat i") (auto simp: RoutingCache_coherent_def)
    next
      fix a b assume a: "a < length (rc_cached rc')" and b: "b < length (rc_cached rc' ! a)"
        and c: "rc_cached rc' ! a ! b"
      show "rc_cache rc' ! a ! b = rc_callback rc' (int a) (int b)"
      proof (cases "a = nat i \<and> b = nat j")
        case True
        with rc' v rng assms(1) a b eqs show ?thesis
          by (auto simp: RoutingCache_coherent_def)
      next
        case False
        with rc' a b c assms(1) eqs rng show ?thesis
          by (cases "a = nat i") (auto simp: RoutingCache_coherent_def nth_list_update)
      qed
    qed
    with v rc' show ?thesis by simp
  qed
qed

lemma Run_evaluator_sound:
  assumes "evaluator_coherent ev" and "Run_evaluator ev i j = Inr (v, ev')"
  shows "v = evaluator_callback ev i j \<and> evaluator_coherent ev'
         \<and> evaluator_callback ev' = evaluator_callback ev"
proof (cases ev)
  case (Callback f)
  with assms show ?thesis by (auto simp: Run_evaluator_def evaluator_callback_def)
next
  case (CachedCallback rc)
  with assms(2) obtain rc' where r: "Run rc i j = Inr (v, rc')" and ev': "ev' = CachedCallback rc'"
    by (auto simp: Run_evaluator_def split: sum.splits)
  from assms(1) CachedCallback have "RoutingCache_coherent rc" by (simp add: evaluator_coherent_def)
  from Run_sound [OF this r] CachedCallback ev' show ?thesis
    by (simp add: evaluator_coherent_def evaluator_callback_def)
qed

lemma Run_cost_sound:
  assumes "list_all evaluator_coherent (costs m)" and "Run_cost m cost_class node_i node_j = Inr (v, m')"
  shows "\<exists>ev. vec_at (costs m) cost_class = Inr ev \<and> v = evaluator_callback ev node_i node_j"
    and "list_all evaluator_coherent (costs m')"
    and "same_instance m m'"
    and "cost_cache m' = cost_cache m"
proof -
  from assms(2) obtain ev ev' where
    ev: "vec_at (costs m) cost_class = Inr ev" and
    run: "Run_evaluator ev node_i node_j = Inr (v, ev')" and
    m': "m' = m\<lparr>costs := (costs m)[nat cost_class := ev']\<rparr>"
    by (auto simp: Run_cost_def split: sum.splits)
  from ev have rng: "0 \<le> cost_class" "nat cost_class < length (costs m)" and evn: "ev = costs m ! nat cost_class"
    by (auto simp: vec_at_Inr)
  from assms(1) rng evn have "evaluator_coherent ev" by (simp add: list_all_length)
  from Run_evaluator_sound [OF this run]
  have v: "v = evaluator_callback ev node_i node_j" and coh: "evaluator_coherent ev'"
    and cb: "evaluator_callback ev' = evaluator_callback ev" by simp_all
  from ev v show "\<exists>ev. vec_at (costs m) cost_class = Inr ev \<and> v = evaluator_callback ev node_i node_j"
    by blast
  from assms(1) coh m' rng show "list_all evaluator_coherent (costs m')"
    by (auto simp: list_all_length nth_list_update)
  have "map evaluator_callback ((costs m)[nat cost_class := ev']) = map evaluator_callback (costs m)"
    using cb evn rng by (simp add: map_update list_update_same_conv)
  with m' show "same_instance m m'" by (simp add: same_instance_def)
  from m' show "cost_cache m' = cost_cache m" by simp
qed

lemma same_instance_refl: "same_instance m m"
  by (simp add: same_instance_def)


lemma same_instance_costs:
  assumes "same_instance m m'"
  shows "(case vec_at (costs m') c of Inl e \<Rightarrow> Inl e | Inr ev \<Rightarrow> Inr (evaluator_callback ev))
       = (case vec_at (costs m) c of Inl e \<Rightarrow> Inl e | Inr ev \<Rightarrow> Inr (evaluator_callback ev))"
proof -
  from assms have eq: "map evaluator_callback (costs m') = map evaluator_callback (costs m)"
    by (simp add: same_instance_def)
  then have len: "length (costs m') = length (costs m)" by (metis length_map)
  show ?thesis
  proof (cases "0 \<le> c \<and> c < int (length (costs m))")
    case True
    then have n: "nat c < length (costs m)" by linarith
    then have "map evaluator_callback (costs m') ! nat c = evaluator_callback (costs m' ! nat c)"
      "map evaluator_callback (costs m) ! nat c = evaluator_callback (costs m ! nat c)"
      using len by (simp_all only: nth_map)
    with eq True len show ?thesis by (simp add: vec_at_def)
  next
    case False
    with len show ?thesis by (auto simp: vec_at_def)
  qed
qed

lemma ArcCost_direct_same_instance:
  assumes "same_instance m m'"
  shows "ArcCost_direct m' i j c = ArcCost_direct m i j c"
proof -
  from assms have f: "index_to_node m' = index_to_node m" "index_to_vehicle m' = index_to_vehicle m"
    "fixed_costs m' = fixed_costs m" "Size m' = Size m"
    by (simp_all add: same_instance_def Size_def)
  have g: "IsStart m' = IsStart m" "IsEnd m' = IsEnd m" "IndexToNode m' = IndexToNode m"
    using f by (auto simp: IsStart_def IsEnd_def IndexToNode_def fun_eq_iff)
  from same_instance_costs [OF assms, of c] show ?thesis
    unfolding ArcCost_direct_def g f
    by (auto split: sum.splits)
qed

lemma GetArcCost_negative_class: "cost_class < 0 \<Longrightarrow> GetArcCost m i j cost_class = Inr (0, m)"
  by (simp add: GetArcCost_def)

lemma GetArcCost_miss_sound:
  assumes ec: "list_all evaluator_coherent (costs m)" and cpos: "c \<ge> 0"
    and inner: "GetArcCost_miss m i j c = Inr (cost, m2)"
  shows "ArcCost_direct m i j c = Inr cost \<and> list_all evaluator_coherent (costs m2)
                \<and> same_instance m m2 \<and> cost_cache m2 = cost_cache m"
proof -
  from inner obtain node_i node_j is_start where
      ni: "IndexToNode m i = Inr node_i" and nj: "IndexToNode m j = Inr node_j" and
      st: "IsStart m i = Inr is_start"
    by (auto simp: GetArcCost_miss_def split: sum.splits)
  show ?thesis
  proof (cases "\<not> is_start")
    case True
    with inner ni nj st have r: "Run_cost m c node_i node_j = Inr (cost, m2)"
      by (simp add: GetArcCost_miss_def)
    from Run_cost_sound [OF ec r] True ni nj st cpos show ?thesis
      by (auto simp: ArcCost_direct_def)
  next
    case False
    show ?thesis
    proof (cases "\<not> IsEnd m j")
      case True
      with inner False ni nj st obtain v vehicle fixed where
        r: "Run_cost m c node_i node_j = Inr (v, m2)" and
        vh: "vec_at (index_to_vehicle m) i = Inr vehicle" and
        fx: "vec_at (fixed_costs m) vehicle = Inr fixed" and
        cost: "cost = int64 (v + fixed)"
        by (auto simp: GetArcCost_miss_def split: sum.splits)
      from Run_cost_sound [OF ec r] True False ni nj st cpos vh fx cost show ?thesis
        by (auto simp: ArcCost_direct_def)
    next
      case e: False
      with inner False ni nj st have "cost = 0" "m2 = m" by (simp_all add: GetArcCost_miss_def)
      with e False ni nj st cpos ec show ?thesis
        by (simp add: ArcCost_direct_def same_instance_refl)
    qed
  qed
qed

lemma GetArcCost_sound:
  assumes coh: "caches_coherent m" and run: "GetArcCost m i j c = Inr (cost, m')"
  shows "ArcCost_direct m i j c = Inr cost \<and> caches_coherent m' \<and> same_instance m m'"
proof (cases "c \<ge> 0")
  case False
  with run have "cost = 0" "m' = m" by (simp_all add: GetArcCost_def)
  with False coh show ?thesis by (simp add: ArcCost_direct_def same_instance_refl)
next
  case cpos: True
  from run cpos obtain cache where cache: "vec_at (cost_cache m) i = Inr cache"
    by (auto simp: GetArcCost_def split: sum.splits)
  then have irng: "0 \<le> i" "nat i < length (cost_cache m)" and cache_eq: "cache = cost_cache m ! nat i"
    by (auto simp: vec_at_Inr)
  from coh have cc: "cost_cache_coherent m" and ec: "list_all evaluator_coherent (costs m)"
    by (simp_all add: caches_coherent_def)
  show ?thesis
  proof (cases "cache_node cache = j \<and> cache_cost_class cache = c")
    case True
    with run cpos cache have res: "cost = cache_cost cache" "m' = m" by (simp_all add: GetArcCost_def)
    from cc irng cache_eq True cpos
    have "ArcCost_direct m (int (nat i)) j c = Inr (cache_cost cache)"
      by (auto simp: cost_cache_coherent_def)
    with irng res coh show ?thesis by (simp add: same_instance_refl)
  next
    case miss: False
    from run cpos cache miss obtain m2 where
      inner: "GetArcCost_miss m i j c = Inr (cost, m2)" and
      m': "m' = m2\<lparr>cost_cache := (cost_cache m2)
                   [nat i := \<lparr>cache_node = j, cache_cost_class = c, cache_cost = cost\<rparr>]\<rparr>"
      by (auto simp: GetArcCost_def split: sum.splits)
    from GetArcCost_miss_sound [OF ec cpos inner]
    have step: "ArcCost_direct m i j c = Inr cost \<and> list_all evaluator_coherent (costs m2)
                \<and> same_instance m m2 \<and> cost_cache m2 = cost_cache m" .
    then have direct: "ArcCost_direct m i j c = Inr cost" and ec2: "list_all evaluator_coherent (costs m2)"
      and si2: "same_instance m m2" and cc2: "cost_cache m2 = cost_cache m" by simp_all
    from si2 m' have si: "same_instance m m'" by (simp add: same_instance_def)
    have "cost_cache_coherent m'"
      unfolding cost_cache_coherent_def
    proof (intro allI impI)
      fix k assume k: "k < length (cost_cache m')" and cls: "0 \<le> cache_cost_class (cost_cache m' ! k)"
      show "ArcCost_direct m' (int k) (cache_node (cost_cache m' ! k)) (cache_cost_class (cost_cache m' ! k))
              = Inr (cache_cost (cost_cache m' ! k))"
      proof (cases "k = nat i")
        case True
        with m' cc2 irng have "cost_cache m' ! k = \<lparr>cache_node = j, cache_cost_class = c, cache_cost = cost\<rparr>"
          by simp
        moreover from True irng have "int k = i" by simp
        ultimately show ?thesis using direct
          by (simp only: ArcCost_direct_same_instance [OF si]) simp
      next
        case False
        with m' cc2 k have same: "cost_cache m' ! k = cost_cache m ! k" and kk: "k < length (cost_cache m)"
          by simp_all
        from cc kk cls have "ArcCost_direct m (int k) (cache_node (cost_cache m ! k))
            (cache_cost_class (cost_cache m ! k)) = Inr (cache_cost (cost_cache m ! k))"
          by (simp add: cost_cache_coherent_def same)
        then show ?thesis
          by (simp only: ArcCost_direct_same_instance [OF si] same)
      qed
    qed
    with direct ec2 m' si show ?thesis by (simp add: caches_coherent_def)
  qed
qed

lemma NewCachedCallback_coherent: "evaluator_coherent (NewCachedCallback flag mx m callback)"
  by (simp add: NewCachedCallback_def Let_def evaluator_coherent_def RoutingCache_new_coherent)

lemma NewCachedCallback_callback: "evaluator_callback (NewCachedCallback flag mx m callback) = callback"
  by (simp add: NewCachedCallback_def Let_def evaluator_callback_def RoutingCache_new_def)

lemma Initialize_cost_cache_coherent:
  "list_all evaluator_coherent (costs m) \<Longrightarrow> caches_coherent (Initialize_cost_cache m)"
  by (simp add: caches_coherent_def cost_cache_coherent_def Initialize_cost_cache_def kUnassigned_def)










lemma ex_cached_model_coherent: "caches_coherent ex_cached_model"
  unfolding ex_cached_model_def
  by (rule Initialize_cost_cache_coherent) (simp add: NewCachedCallback_coherent)

lemma map_sum_fst_Inr: "map_sum id fst r = Inr v \<Longrightarrow> \<exists>m'. r = Inr (v, m')"
  by (cases r) auto





lemma Run_returns:
  assumes "RoutingCache_coherent rc" and "0 \<le> i" and "i < int (length (rc_cached rc))"
    and "0 \<le> j" and "j < int (length (rc_cached rc ! nat i))"
  shows "\<exists>rc'. Run rc i j = Inr (rc_callback rc i j, rc')"
proof -
  from assms have n: "nat i < length (rc_cached rc)" by linarith
  with assms(1) have l1: "length (rc_cache rc) = length (rc_cached rc)"
    and l2: "length (rc_cache rc ! nat i) = length (rc_cached rc ! nat i)"
    by (simp_all add: RoutingCache_coherent_def)
  with assms(2-5) have "\<exists>v rc'. Run rc i j = Inr (v, rc')"
    by (simp add: Run_def vec_at_def Let_def)
  then obtain v rc' where r: "Run rc i j = Inr (v, rc')" by blast
  from Run_sound [OF assms(1) r] r show ?thesis by auto
qed

lemma Run_evaluator_returns:
  assumes "evaluator_coherent ev" and "evaluator_covers ev i j"
  shows "\<exists>ev'. Run_evaluator ev i j = Inr (evaluator_callback ev i j, ev')"
proof (cases ev)
  case (Callback f)
  then show ?thesis by (simp add: Run_evaluator_def evaluator_callback_def)
next
  case (CachedCallback rc)
  with assms have "RoutingCache_coherent rc" "0 \<le> i" "i < int (length (rc_cached rc))"
    "0 \<le> j" "j < int (length (rc_cached rc ! nat i))"
    by (simp_all add: evaluator_coherent_def evaluator_covers_def)
  from Run_returns [OF this] CachedCallback show ?thesis
    by (auto simp: Run_evaluator_def evaluator_callback_def)
qed

lemma Run_cost_returns:
  assumes "list_all evaluator_coherent (costs m)" and "vec_at (costs m) c = Inr ev"
    and "evaluator_covers ev ni nj"
  shows "\<exists>m'. Run_cost m c ni nj = Inr (evaluator_callback ev ni nj, m')"
proof -
  from assms(2) have "0 \<le> c" "nat c < length (costs m)" "ev = costs m ! nat c"
    by (auto simp: vec_at_Inr)
  with assms(1) have "evaluator_coherent ev" by (simp add: list_all_length)
  from Run_evaluator_returns [OF this assms(3)] assms(2) show ?thesis
    by (auto simp: Run_cost_def)
qed

text \<open>
  The cached computation returns whenever the uncached one is defined, the
  source index has a cache slot and the nodes lie inside the evaluator's
  tables; with \<open>GetArcCost_sound\<close>, the two agree.
\<close>

lemma GetArcCost_returns:
  assumes coh: "caches_coherent m" and d: "ArcCost_direct m i j c = Inr v"
    and i: "0 \<le> i" "i < int (length (cost_cache m))"
    and covers: "\<And>ev ni nj. vec_at (costs m) c = Inr ev \<Longrightarrow> IndexToNode m i = Inr ni
                    \<Longrightarrow> IndexToNode m j = Inr nj \<Longrightarrow> evaluator_covers ev ni nj"
  shows "\<exists>m'. GetArcCost m i j c = Inr (v, m')"
proof -
  have "\<exists>w m'. GetArcCost m i j c = Inr (w, m')"
  proof (cases "c \<ge> 0")
    case False
    then show ?thesis by (simp add: GetArcCost_def)
  next
    case True
    from coh have ec: "list_all evaluator_coherent (costs m)" by (simp add: caches_coherent_def)
    from d True obtain ni nj s where
      ni: "IndexToNode m i = Inr ni" and nj: "IndexToNode m j = Inr nj" and s: "IsStart m i = Inr s"
      by (auto simp: ArcCost_direct_def split: sum.splits)
    have "\<exists>w m2. GetArcCost_miss m i j c = Inr (w, m2)"
    proof (cases "s \<and> IsEnd m j")
      case True
      with ni nj s show ?thesis by (simp add: GetArcCost_miss_def)
    next
      case False
      with d \<open>c \<ge> 0\<close> ni nj s obtain ev where ev: "vec_at (costs m) c = Inr ev"
        by (auto simp: ArcCost_direct_def split: sum.splits if_splits)
      from Run_cost_returns [OF ec ev covers [OF ev ni nj]]
      obtain m1 where r: "Run_cost m c ni nj = Inr (evaluator_callback ev ni nj, m1)" by blast
      show ?thesis
      proof (cases s)
        case False
        with ni nj s r show ?thesis by (simp add: GetArcCost_miss_def)
      next
        case True
        with \<open>\<not> (s \<and> IsEnd m j)\<close> have ne: "\<not> IsEnd m j" by simp
        with d \<open>c \<ge> 0\<close> ni nj s True obtain vehicle fixed where
          "vec_at (index_to_vehicle m) i = Inr vehicle" "vec_at (fixed_costs m) vehicle = Inr fixed"
          by (auto simp: ArcCost_direct_def split: sum.splits)
        with ni nj s r True ne show ?thesis by (simp add: GetArcCost_miss_def)
      qed
    qed
    with True i show ?thesis
      by (auto simp: GetArcCost_def vec_at_def)
  qed
  then obtain w m' where r: "GetArcCost m i j c = Inr (w, m')" by blast
  from GetArcCost_sound [OF coh r] d have "w = v" by simp
  with r show ?thesis by blast
qed




section \<open>Properties: disjunction constraints\<close>

lemma card_active_le_sum:
  assumes "\<forall>x \<in> set xs. f x = 0 \<or> f x = (1::int)"
  shows "int (card {x \<in> set xs. f x = 1}) \<le> sum_list (map f xs)"
  using assms
proof (induction xs)
  case Nil
  then show ?case by simp
next
  case (Cons a xs)
  have "{x \<in> set (a # xs). f x = 1} \<subseteq> insert a {x \<in> set xs. f x = 1}" by auto
  then have "card {x \<in> set (a # xs). f x = 1} \<le> card (insert a {x \<in> set xs. f x = 1})"
    by (intro card_mono) auto
  also have "\<dots> \<le> Suc (card {x \<in> set xs. f x = 1})" by (simp add: card_insert_le_m1)
  finally have c: "card {x \<in> set (a # xs). f x = 1} \<le> Suc (card {x \<in> set xs. f x = 1})" .
  show ?case
  proof (cases "f a = 1")
    case True
    with Cons c show ?thesis by auto
  next
    case False
    then have "{x \<in> set (a # xs). f x = 1} = {x \<in> set xs. f x = 1}" by auto
    with Cons False show ?thesis by auto
  qed
qed

lemma sum_zero_iff_none_active:
  assumes "\<forall>x \<in> set xs. f x = 0 \<or> f x = (1::int)"
  shows "sum_list (map f xs) = 0 \<longleftrightarrow> {x \<in> set xs. f x = 1} = {}"
  using assms
proof (induction xs)
  case Nil
  then show ?case by simp
next
  case (Cons a xs)
  then have nn: "0 \<le> sum_list (map f xs)" by (intro sum_list_nonneg) auto
  from Cons show ?case using nn by (cases "f a = 1") auto
qed

lemma disjunction_active_vars_map:
  "disjunction_active_vars m ns = Inr vs \<Longrightarrow> vs = map ActiveVar ns"
  by (induction ns arbitrary: vs) (auto split: if_splits sum.splits)

text \<open>
  C7. In every Boolean solution of the constraints that CreateDisjunction hands
  to the solver: a disjunction with a negative penalty (the mandatory marker
  \<open>kNoPenalty = -1\<close>) has exactly one active node and no penalty variable; a
  disjunction with a non-negative penalty has at most one active node, and
  its penalty variable takes the penalty when no node is active and 0
  otherwise.
\<close>

theorem C7_disjunction_constraint:
  assumes cd: "CreateDisjunction m d = Inr (cts, pen)"
    and dj: "vec_at (disjunctions m) d = Inr dj"
    and bool: "boolean_solution \<sigma>"
    and sat: "\<forall>c \<in> set cts. satisfies \<sigma> c"
  shows "(disj_penalty dj < 0 \<longrightarrow> pen = None \<and> card (active_nodes \<sigma> dj) = 1)
       \<and> (disj_penalty dj \<ge> 0 \<longrightarrow>
            card (active_nodes \<sigma> dj) \<le> 1
            \<and> (\<exists>e. pen = Some e
                   \<and> expr_value \<sigma> e = (if active_nodes \<sigma> dj = {} then disj_penalty dj else 0)))"
proof -
  let ?f = "\<lambda>n. \<sigma> (ActiveVar n)"
  let ?ns = "disj_nodes dj"
  let ?na = "\<sigma> (NoActiveVar d)"
  from cd dj obtain vs where vs: "disjunction_active_vars m ?ns = Inr vs"
    by (auto simp: CreateDisjunction_def split: sum.splits)
  then have vs_eq: "vs = map ActiveVar ?ns" by (rule disjunction_active_vars_map)
  from cd dj vs have sumct: "MakeSumEquality (vs @ [NoActiveVar d]) 1 \<in> set cts"
    by (auto simp: CreateDisjunction_def Let_def split: if_splits)
  with sat have "satisfies \<sigma> (MakeSumEquality (vs @ [NoActiveVar d]) 1)" by blast
  with vs_eq have sum: "sum_list (map ?f ?ns) + ?na = 1" by (simp add: comp_def)
  from bool have b01: "\<forall>x \<in> set ?ns. ?f x = 0 \<or> ?f x = 1" and na01: "?na = 0 \<or> ?na = 1"
    by (simp_all add: boolean_solution_def)
  have fin: "finite (active_nodes \<sigma> dj)" by (simp add: active_nodes_def)
  have le: "int (card (active_nodes \<sigma> dj)) \<le> sum_list (map ?f ?ns)"
    unfolding active_nodes_def using b01 by (rule card_active_le_sum)
  have zero: "sum_list (map ?f ?ns) = 0 \<longleftrightarrow> active_nodes \<sigma> dj = {}"
    unfolding active_nodes_def using b01 by (rule sum_zero_iff_none_active)
  have nn: "0 \<le> sum_list (map ?f ?ns)" using b01 by (intro sum_list_nonneg) auto
  show ?thesis
  proof (intro conjI impI)
    assume neg: "disj_penalty dj < 0"
    with cd dj vs show "pen = None" by (auto simp: CreateDisjunction_def Let_def)
    from neg cd dj vs have "SetMax (NoActiveVar d) 0 \<in> set cts"
      by (auto simp: CreateDisjunction_def Let_def)
    with sat have "?na \<le> 0" by fastforce
    with na01 have "?na = 0" by auto
    with sum have s1: "sum_list (map ?f ?ns) = 1" by simp
    with zero have "active_nodes \<sigma> dj \<noteq> {}" by simp
    with fin have "card (active_nodes \<sigma> dj) \<ge> 1" by (simp add: Suc_leI card_gt_0_iff)
    with le s1 show "card (active_nodes \<sigma> dj) = 1" by simp
  next
    assume pos: "0 \<le> disj_penalty dj"
    from sum na01 nn le show "card (active_nodes \<sigma> dj) \<le> 1" by auto
  next
    assume pos: "0 \<le> disj_penalty dj"
    with cd dj vs have pen: "pen = Some (MakeProd (NoActiveVar d) (disj_penalty dj))"
      by (auto simp: CreateDisjunction_def Let_def)
    from sum na01 zero have "?na = (if active_nodes \<sigma> dj = {} then 1 else 0)" by auto
    with pen show "\<exists>e. pen = Some e
          \<and> expr_value \<sigma> e = (if active_nodes \<sigma> dj = {} then disj_penalty dj else 0)"
      by simp
  qed
qed

theorem C7_disjunction_constraint_witness:
  "CreateDisjunction ex_mandatory_model 0
     = Inr ([MakeSumEquality [ActiveVar 1, ActiveVar 2, NoActiveVar 0] 1, SetMax (NoActiveVar 0) 0], None)
   \<and> boolean_solution ex_solution_one
   \<and> satisfies ex_solution_one (MakeSumEquality [ActiveVar 1, ActiveVar 2, NoActiveVar 0] 1)
   \<and> satisfies ex_solution_one (SetMax (NoActiveVar 0) 0)
   \<and> card (active_nodes ex_solution_one \<lparr>disj_nodes = [1, 2], disj_penalty = kNoPenalty\<rparr>) = 1
   \<and> CreateDisjunction ex_model 0
     = Inr ([MakeSumEquality [ActiveVar 1, ActiveVar 2, NoActiveVar 0] 1], Some (MakeProd (NoActiveVar 0) 5))
   \<and> boolean_solution ex_solution_none
   \<and> satisfies ex_solution_none (MakeSumEquality [ActiveVar 1, ActiveVar 2, NoActiveVar 0] 1)
   \<and> active_nodes ex_solution_none \<lparr>disj_nodes = [1, 2], disj_penalty = 5\<rparr> = {}
   \<and> expr_value ex_solution_none (MakeProd (NoActiveVar 0) 5) = 5"
proof -
  let ?sum = "MakeSumEquality [ActiveVar 1, ActiveVar 2, NoActiveVar 0] 1"
  let ?djm = "\<lparr>disj_nodes = [1, 2], disj_penalty = kNoPenalty\<rparr>"
  let ?djo = "\<lparr>disj_nodes = [1, 2], disj_penalty = 5\<rparr>"
  have cm: "CreateDisjunction ex_mandatory_model 0 = Inr ([?sum, SetMax (NoActiveVar 0) 0], None)"
    by code_simp
  have dm: "vec_at (disjunctions ex_mandatory_model) 0 = Inr ?djm"
    by (simp add: ex_mandatory_model_def vec_at_def)
  have bm: "boolean_solution ex_solution_one"
    by (simp add: boolean_solution_def ex_solution_one_def)
  have sm: "satisfies ex_solution_one ?sum" "satisfies ex_solution_one (SetMax (NoActiveVar 0) 0)"
    by (simp_all add: ex_solution_one_def)
  then have sm_all: "\<forall>c \<in> set [?sum, SetMax (NoActiveVar 0) 0]. satisfies ex_solution_one c" by simp
  have co: "CreateDisjunction ex_model 0 = Inr ([?sum], Some (MakeProd (NoActiveVar 0) 5))"
    by code_simp
  have do: "vec_at (disjunctions ex_model) 0 = Inr ?djo"
    by (simp add: ex_model_def vec_at_def)
  have bo: "boolean_solution ex_solution_none"
    by (simp add: boolean_solution_def ex_solution_none_def)
  have so: "satisfies ex_solution_none ?sum" by (simp add: ex_solution_none_def)
  then have so_all: "\<forall>c \<in> set [?sum]. satisfies ex_solution_none c" by simp
  have none: "active_nodes ex_solution_none ?djo = {}"
    by (auto simp: active_nodes_def ex_solution_none_def)
  from C7_disjunction_constraint [OF cm dm bm sm_all]
  have r1: "card (active_nodes ex_solution_one ?djm) = 1" by (simp add: kNoPenalty_def)
  from C7_disjunction_constraint [OF co do bo so_all] none
  have r2: "expr_value ex_solution_none (MakeProd (NoActiveVar 0) 5) = 5" by simp
  from cm bm sm r1 co bo so none r2 show ?thesis by simp
qed

section \<open>Properties: linear Boolean problems\<close>


lemma abs_sum_Cons [simp]: "abs_sum (c # cs) = \<bar>c\<bar> + abs_sum cs"
  by (simp add: abs_sum_def)

lemma abs_sum_Nil [simp]: "abs_sum [] = 0"
  by (simp add: abs_sum_def)








lemma make_terms_positive_returns:
  "length ls \<le> length cs \<Longrightarrow> \<exists>r. make_terms_positive ls cs t = Inr r"
proof (induction ls arbitrary: cs t)
  case Nil
  then show ?case by simp
next
  case (Cons l ls)
  then obtain c cs1 where cs: "cs = c # cs1" by (cases cs) auto
  with Cons.prems have len: "length ls \<le> length cs1" by simp
  from Cons.IH [OF len] obtain r where r: "make_terms_positive ls cs1 t = Inr r" by blast
  from Cons.IH [OF len] obtain r' where r': "make_terms_positive ls cs1 (int64 (t + c)) = Inr r'" by blast
  from r r' cs show ?case by (cases r; cases r') auto
qed

lemma make_constraints_positive_returns:
  "\<forall>ct \<in> set cts. length (literals ct) \<le> length (coefficients ct) \<Longrightarrow>
   \<exists>r. make_constraints_positive cts = Inr r"
proof (induction cts)
  case Nil
  then show ?case by simp
next
  case (Cons ct cts)
  then have "length (literals ct) \<le> length (coefficients ct)" by simp
  from make_terms_positive_returns [OF this] obtain r where
    "make_terms_positive (literals ct) (coefficients ct) 0 = Inr r" by blast
  then have "\<exists>ct'. make_constraint_positive ct = Inr ct'"
    by (cases r) (simp add: make_constraint_positive_def)
  moreover from Cons have "\<exists>r. make_constraints_positive cts = Inr r" by simp
  ultimately show ?case by auto
qed

text \<open>The transformation returns on every problem whose terms all have a
  coefficient.\<close>

lemma MakeAllLiteralsPositive_returns:
  assumes "length (obj_literals (objective p)) \<le> length (obj_coefficients (objective p))"
    and "\<forall>ct \<in> set (constraints p). length (literals ct) \<le> length (coefficients ct)"
  shows "\<exists>p'. MakeAllLiteralsPositive p = Inr p'"
proof -
  from make_terms_positive_returns [OF assms(1)] obtain r where
    "make_terms_positive (obj_literals (objective p)) (obj_coefficients (objective p)) 0 = Inr r" by blast
  moreover from make_constraints_positive_returns [OF assms(2)] obtain cts where
    "make_constraints_positive (constraints p) = Inr cts" by blast
  ultimately show ?thesis by (cases r) (simp add: MakeAllLiteralsPositive_def Let_def)
qed




section \<open>Properties: symmetry graph\<close>

lemma GetId_frame:
  "GetId g t c = (ident, g1) \<Longrightarrow> arcs g1 = arcs g \<and> initial_equivalence_classes g1 = initial_equivalence_classes g"
  by (auto simp: GetId_def split: option.splits)

lemma add_terms_arcs:
  "arcs (add_terms cn ts cur prev g)
     = arcs g @ term_arcs cn (length (initial_equivalence_classes g)) ts cur prev
   \<and> length (initial_equivalence_classes (add_terms cn ts cur prev g))
     = length (initial_equivalence_classes g) + new_nodes ts prev"
proof (induction ts arbitrary: cur prev g)
  case Nil
  show ?case by simp
next
  case (Cons t ts)
  obtain l c where t: "t = (l, c)" by (cases t)
  show ?case
  proof (cases "c = prev")
    case True
    let ?g4 = "AddArc (AddArc g cur l) l cur"
    have step: "add_terms cn (t # ts) cur prev g = add_terms cn ts cur prev ?g4"
      using True t by (simp add: Let_def)
    have g4: "arcs ?g4 = arcs g @ [(cur, l), (l, cur)]"
      "initial_equivalence_classes ?g4 = initial_equivalence_classes g"
      by (simp_all add: AddArc_def)
    from Cons.IH [of cur prev ?g4] True t show ?thesis
      unfolding step by (simp add: g4)
  next
    case False
    let ?new = "length (initial_equivalence_classes g)"
    obtain ident g1 where gid: "GetId g CONSTRAINT_COEFFICIENT_NODE c = (ident, g1)"
      by (cases "GetId g CONSTRAINT_COEFFICIENT_NODE c")
    let ?g4 = "AddArc (AddArc (AddArc (AddArc (push_class g1 ident) cn ?new) ?new cn) ?new l) l ?new"
    have step: "add_terms cn (t # ts) cur prev g = add_terms cn ts ?new c ?g4"
      using False t gid by (simp add: Let_def)
    from GetId_frame [OF gid] have g4: "arcs ?g4 = arcs g @ [(cn, ?new), (?new, cn), (?new, l), (l, ?new)]"
      "length (initial_equivalence_classes ?g4) = Suc ?new"
      by (simp_all add: AddArc_def push_class_def)
    from Cons.IH [of ?new c ?g4] False t show ?thesis
      unfolding step by (simp add: g4)
  qed
qed

lemma term_arcs_symmetric:
  "(a, b) \<in> set (term_arcs cn nxt ts cur prev) \<Longrightarrow> (b, a) \<in> set (term_arcs cn nxt ts cur prev)"
proof (induction ts arbitrary: nxt cur prev)
  case Nil
  then show ?case by simp
next
  case (Cons t ts)
  obtain l c where t: "t = (l, c)" by (cases t)
  show ?case
  proof (cases "c = prev")
    case True
    with Cons.prems t have "(a, b) \<in> {(cur, l), (l, cur)} \<or> (a, b) \<in> set (term_arcs cn nxt ts cur prev)"
      by auto
    then have "(b, a) \<in> {(cur, l), (l, cur)} \<or> (b, a) \<in> set (term_arcs cn nxt ts cur prev)"
      using Cons.IH by blast
    with True t show ?thesis by auto
  next
    case False
    with Cons.prems t have "(a, b) \<in> {(cn, nxt), (nxt, cn), (nxt, l), (l, nxt)}
        \<or> (a, b) \<in> set (term_arcs cn (Suc nxt) ts nxt c)"
      by auto
    then have "(b, a) \<in> {(cn, nxt), (nxt, cn), (nxt, l), (l, nxt)}
        \<or> (b, a) \<in> set (term_arcs cn (Suc nxt) ts nxt c)"
      using Cons.IH by blast
    with False t show ?thesis by auto
  qed
qed

lemma term_arcs_tails:
  "(a, b) \<in> set (term_arcs cn nxt ts cur prev) \<Longrightarrow>
   a = cn \<or> a = cur \<or> (nxt \<le> a \<and> a < nxt + new_nodes ts prev) \<or> a \<in> fst ` set ts"
proof (induction ts arbitrary: nxt cur prev)
  case Nil
  then show ?case by simp
next
  case (Cons t ts)
  obtain l c where t: "t = (l, c)" by (cases t)
  show ?case
  proof (cases "c = prev")
    case True
    with Cons.prems t have "(a, b) \<in> {(cur, l), (l, cur)} \<or> (a, b) \<in> set (term_arcs cn nxt ts cur prev)"
      by auto
    then show ?thesis
    proof
      assume "(a, b) \<in> {(cur, l), (l, cur)}"
      with t show ?thesis by auto
    next
      assume "(a, b) \<in> set (term_arcs cn nxt ts cur prev)"
      from Cons.IH [OF this] True t show ?thesis by auto
    qed
  next
    case False
    with Cons.prems t have "(a, b) \<in> {(cn, nxt), (nxt, cn), (nxt, l), (l, nxt)}
        \<or> (a, b) \<in> set (term_arcs cn (Suc nxt) ts nxt c)"
      by auto
    then show ?thesis
    proof
      assume "(a, b) \<in> {(cn, nxt), (nxt, cn), (nxt, l), (l, nxt)}"
      with t False show ?thesis by auto
    next
      assume "(a, b) \<in> set (term_arcs cn (Suc nxt) ts nxt c)"
      from Cons.IH [OF this] False t show ?thesis by auto
    qed
  qed
qed

lemma sorted_prev_no_term:
  assumes "sorted (c # map snd ts)" and "prev < c"
  shows "literals_with_coefficient ts prev = {}"
proof -
  from assms(1) have "\<forall>c' \<in> snd ` set ts. c \<le> c'" by auto
  with assms(2) have "\<forall>t \<in> set ts. snd t \<noteq> prev" by fastforce
  then show ?thesis by (fastforce simp: literals_with_coefficient_def)
qed

lemma term_arcs_current_out:
  assumes "sorted (prev # map snd ts)" and "cur \<noteq> cn" and "cur < nxt" and "cur \<notin> fst ` set ts"
  shows "{b. (cur, b) \<in> set (term_arcs cn nxt ts cur prev)} = literals_with_coefficient ts prev"
  using assms
proof (induction ts arbitrary: nxt)
  case Nil
  show ?case by (simp add: literals_with_coefficient_def)
next
  case (Cons t ts)
  obtain l c where t: "t = (l, c)" by (cases t)
  from Cons.prems t have pc: "prev \<le> c" and srt: "sorted (c # map snd ts)"
    and l: "l \<noteq> cur" and notin: "cur \<notin> fst ` set ts" by auto
  show ?case
  proof (cases "c = prev")
    case True
    with srt have "sorted (prev # map snd ts)" by simp
    from Cons.IH [OF this Cons.prems(2,3) notin]
    have ih: "{b. (cur, b) \<in> set (term_arcs cn nxt ts cur prev)} = literals_with_coefficient ts prev" .
    have "{b. (cur, b) \<in> set (term_arcs cn nxt (t # ts) cur prev)}
        = insert l {b. (cur, b) \<in> set (term_arcs cn nxt ts cur prev)}"
      using True t l by auto
    also have "\<dots> = literals_with_coefficient (t # ts) prev"
      unfolding ih using True t by (auto simp: literals_with_coefficient_def)
    finally show ?thesis .
  next
    case False
    with pc have lt: "prev < c" by simp
    have none: "\<And>b. (cur, b) \<notin> set (term_arcs cn (Suc nxt) ts nxt c)"
    proof
      fix b assume "(cur, b) \<in> set (term_arcs cn (Suc nxt) ts nxt c)"
      from term_arcs_tails [OF this] Cons.prems(2,3) notin show False by auto
    qed
    have "{b. (cur, b) \<in> set (term_arcs cn nxt (t # ts) cur prev)} = {}"
      using False t l Cons.prems(2,3) none by auto
    moreover have "literals_with_coefficient (t # ts) prev = {}"
      using sorted_prev_no_term [OF srt lt] False t by (auto simp: literals_with_coefficient_def)
    ultimately show ?thesis by simp
  qed
qed

lemma term_arcs_coefficient_node:
  assumes "sorted (prev # map snd ts)" and "c \<in> snd ` set ts" and "c \<noteq> prev"
    and "cn < nxt" and "cur < nxt" and "\<forall>l \<in> fst ` set ts. l < nxt"
  shows "\<exists>n. nxt \<le> n \<and> n < nxt + new_nodes ts prev
           \<and> {b. (n, b) \<in> set (term_arcs cn nxt ts cur prev)} = insert cn (literals_with_coefficient ts c)"
  using assms
proof (induction ts arbitrary: nxt cur prev)
  case Nil
  then show ?case by simp
next
  case (Cons t ts)
  obtain l c0 where t: "t = (l, c0)" by (cases t)
  from Cons.prems t have pc: "prev \<le> c0" and srt: "sorted (c0 # map snd ts)"
    and l: "l < nxt" and lits: "\<forall>l \<in> fst ` set ts. l < nxt" by auto
  show ?case
  proof (cases "c0 = prev")
    case True
    with srt have s': "sorted (prev # map snd ts)" by simp
    from Cons.prems(2,3) True t have cin: "c \<in> snd ` set ts" by auto
    from Cons.IH [OF s' cin Cons.prems(3,4,5) lits] obtain n where
      n: "nxt \<le> n" "n < nxt + new_nodes ts prev"
      and out: "{b. (n, b) \<in> set (term_arcs cn nxt ts cur prev)} = insert cn (literals_with_coefficient ts c)"
      by blast
    from n Cons.prems(5) l have ne: "n \<noteq> cur" "n \<noteq> l" by auto
    have "{b. (n, b) \<in> set (term_arcs cn nxt (t # ts) cur prev)}
        = {b. (n, b) \<in> set (term_arcs cn nxt ts cur prev)}"
      using True t ne by auto
    moreover have "literals_with_coefficient (t # ts) c = literals_with_coefficient ts c"
      using True t Cons.prems(3) by (auto simp: literals_with_coefficient_def)
    moreover have "new_nodes (t # ts) prev = new_nodes ts prev" using True t by simp
    ultimately show ?thesis using n out by auto
  next
    case False
    have arcs_eq: "term_arcs cn nxt (t # ts) cur prev
        = [(cn, nxt), (nxt, cn), (nxt, l), (l, nxt)] @ term_arcs cn (Suc nxt) ts nxt c0"
      using False t by simp
    have nn_eq: "new_nodes (t # ts) prev = Suc (new_nodes ts c0)" using False t by simp
    show ?thesis
    proof (cases "c = c0")
      case True
      have nl: "nxt \<notin> fst ` set ts" using lits by auto
      from Cons.prems(4) have ncn: "nxt \<noteq> cn" by simp
      from term_arcs_current_out [OF srt ncn _ nl, of "Suc nxt"]
      have cur_out: "{b. (nxt, b) \<in> set (term_arcs cn (Suc nxt) ts nxt c0)} = literals_with_coefficient ts c0"
        by simp
      have "{b. (nxt, b) \<in> set (term_arcs cn nxt (t # ts) cur prev)}
          = insert cn (insert l {b. (nxt, b) \<in> set (term_arcs cn (Suc nxt) ts nxt c0)})"
        unfolding arcs_eq using ncn l by auto
      also have "\<dots> = insert cn (literals_with_coefficient (t # ts) c)"
        unfolding cur_out using True t by (auto simp: literals_with_coefficient_def)
      finally show ?thesis using nn_eq by (intro exI [of _ nxt]) simp
    next
      case cne: False
      with Cons.prems(2) t have cin: "c \<in> snd ` set ts" by auto
      from Cons.prems(4) lits have p: "cn < Suc nxt" "nxt < Suc nxt" "\<forall>l \<in> fst ` set ts. l < Suc nxt"
        by auto
      from Cons.IH [OF srt cin cne p] obtain n where
        n: "Suc nxt \<le> n" "n < Suc nxt + new_nodes ts c0"
        and out: "{b. (n, b) \<in> set (term_arcs cn (Suc nxt) ts nxt c0)} = insert cn (literals_with_coefficient ts c)"
        by blast
      from n Cons.prems(4) l have ne: "n \<noteq> cn" "n \<noteq> nxt" "n \<noteq> l" by auto
      have "{b. (n, b) \<in> set (term_arcs cn nxt (t # ts) cur prev)}
          = {b. (n, b) \<in> set (term_arcs cn (Suc nxt) ts nxt c0)}"
        unfolding arcs_eq using ne by auto
      moreover have "literals_with_coefficient (t # ts) c = literals_with_coefficient ts c"
        using cne t by (auto simp: literals_with_coefficient_def)
      ultimately show ?thesis using n out nn_eq by (intro exI [of _ n]) simp
    qed
  qed
qed

lemma add_constraint_arcs:
  "arcs (add_constraint ct g)
     = arcs g @ term_arcs (length (initial_equivalence_classes g))
                  (Suc (length (initial_equivalence_classes g))) (snd ct)
                  (length (initial_equivalence_classes g)) 1"
  "length (initial_equivalence_classes (add_constraint ct g))
     = Suc (length (initial_equivalence_classes g)) + new_nodes (snd ct) 1"
proof -
  obtain ident g1 where gid: "GetId g CONSTRAINT_NODE (fst ct) = (ident, g1)"
    by (cases "GetId g CONSTRAINT_NODE (fst ct)")
  let ?cn = "length (initial_equivalence_classes g)"
  from GetId_frame [OF gid] have g2: "arcs (push_class g1 ident) = arcs g"
    "length (initial_equivalence_classes (push_class g1 ident)) = Suc ?cn"
    by (simp_all add: push_class_def)
  have ac: "add_constraint ct g = add_terms ?cn (snd ct) ?cn 1 (push_class g1 ident)"
    using gid by (simp add: add_constraint_def Let_def)
  from add_terms_arcs [of ?cn "snd ct" ?cn 1 "push_class g1 ident"]
  show "arcs (add_constraint ct g) = arcs g @ term_arcs ?cn (Suc ?cn) (snd ct) ?cn 1"
    and "length (initial_equivalence_classes (add_constraint ct g)) = Suc ?cn + new_nodes (snd ct) 1"
    unfolding ac g2 by simp_all
qed

lemma add_constraints_arcs:
  "\<exists>new. arcs (add_constraints cts g) = arcs g @ new
     \<and> length (initial_equivalence_classes g) \<le> length (initial_equivalence_classes (add_constraints cts g))
     \<and> (\<forall>a b. (a, b) \<in> set new \<longrightarrow>
           (b, a) \<in> set new
         \<and> ((length (initial_equivalence_classes g) \<le> a
               \<and> a < length (initial_equivalence_classes (add_constraints cts g)))
            \<or> (\<exists>ct \<in> set cts. a \<in> fst ` set (snd ct))))"
proof (induction cts arbitrary: g)
  case Nil
  show ?case by simp
next
  case (Cons ct cts)
  let ?n = "length (initial_equivalence_classes g)"
  let ?g1 = "add_constraint ct g"
  let ?blk = "term_arcs ?n (Suc ?n) (snd ct) ?n 1"
  from Cons.IH [of ?g1] obtain new where
    ih: "arcs (add_constraints cts ?g1) = arcs ?g1 @ new"
      "length (initial_equivalence_classes ?g1) \<le> length (initial_equivalence_classes (add_constraints cts ?g1))"
      "\<forall>a b. (a, b) \<in> set new \<longrightarrow>
           (b, a) \<in> set new
         \<and> ((length (initial_equivalence_classes ?g1) \<le> a
               \<and> a < length (initial_equivalence_classes (add_constraints cts ?g1)))
            \<or> (\<exists>ct \<in> set cts. a \<in> fst ` set (snd ct)))"
    by blast
  note ac = add_constraint_arcs [of ct g]
  have blk: "\<forall>a b. (a, b) \<in> set ?blk \<longrightarrow>
           (b, a) \<in> set ?blk
         \<and> ((?n \<le> a \<and> a < length (initial_equivalence_classes ?g1)) \<or> a \<in> fst ` set (snd ct))"
  proof (intro allI impI conjI)
    fix a b assume ab: "(a, b) \<in> set ?blk"
    then show "(b, a) \<in> set ?blk" by (rule term_arcs_symmetric)
    from term_arcs_tails [OF ab] show "(?n \<le> a \<and> a < length (initial_equivalence_classes ?g1)) \<or> a \<in> fst ` set (snd ct)"
      unfolding ac(2) by auto
  qed
  have "arcs (add_constraints (ct # cts) g) = arcs g @ (?blk @ new)"
    using ih(1) ac(1) by simp
  moreover have "?n \<le> length (initial_equivalence_classes (add_constraints (ct # cts) g))"
    using ih(2) ac(2) by simp
  moreover have "\<forall>a b. (a, b) \<in> set (?blk @ new) \<longrightarrow>
           (b, a) \<in> set (?blk @ new)
         \<and> ((?n \<le> a \<and> a < length (initial_equivalence_classes (add_constraints (ct # cts) g)))
            \<or> (\<exists>ct' \<in> set (ct # cts). a \<in> fst ` set (snd ct')))"
  proof (intro allI impI)
    fix a b assume "(a, b) \<in> set (?blk @ new)"
    then consider "(a, b) \<in> set ?blk" | "(a, b) \<in> set new" by auto
    then show "(b, a) \<in> set (?blk @ new)
         \<and> ((?n \<le> a \<and> a < length (initial_equivalence_classes (add_constraints (ct # cts) g)))
            \<or> (\<exists>ct' \<in> set (ct # cts). a \<in> fst ` set (snd ct')))"
    proof cases
      case 1
      with blk have "(b, a) \<in> set ?blk"
        and "(?n \<le> a \<and> a < length (initial_equivalence_classes ?g1)) \<or> a \<in> fst ` set (snd ct)"
        by blast+
      with ih(2) show ?thesis by auto
    next
      case 2
      with ih(3) have "(b, a) \<in> set new"
        and "(length (initial_equivalence_classes ?g1) \<le> a
               \<and> a < length (initial_equivalence_classes (add_constraints cts ?g1)))
            \<or> (\<exists>ct \<in> set cts. a \<in> fst ` set (snd ct))"
        by blast+
      with ac(2) show ?thesis by auto
    qed
  qed
  ultimately show ?case by blast
qed

lemma add_literal_arcs_spec:
  "initial_equivalence_classes (add_literal_arcs i n g) = initial_equivalence_classes g
   \<and> id_map (add_literal_arcs i n g) = id_map g
   \<and> (\<exists>new. arcs (add_literal_arcs i n g) = arcs g @ new
        \<and> (\<forall>a b. (a, b) \<in> set new \<longrightarrow> (b, a) \<in> set new \<and> a < 2 * (i + n)))"
proof (induction n arbitrary: i g)
  case 0
  show ?case by simp
next
  case (Suc n)
  let ?g1 = "AddArc (AddArc g (2 * i) (2 * i + 1)) (2 * i + 1) (2 * i)"
  from Suc.IH [of "Suc i" ?g1] obtain new where
    ih: "initial_equivalence_classes (add_literal_arcs (Suc i) n ?g1) = initial_equivalence_classes ?g1"
      "id_map (add_literal_arcs (Suc i) n ?g1) = id_map ?g1"
      "arcs (add_literal_arcs (Suc i) n ?g1) = arcs ?g1 @ new"
      "\<forall>a b. (a, b) \<in> set new \<longrightarrow> (b, a) \<in> set new \<and> a < 2 * (Suc i + n)"
    by blast
  have g1: "arcs ?g1 = arcs g @ [(2 * i, 2 * i + 1), (2 * i + 1, 2 * i)]"
    "initial_equivalence_classes ?g1 = initial_equivalence_classes g" "id_map ?g1 = id_map g"
    by (simp_all add: AddArc_def)
  have "arcs (add_literal_arcs i (Suc n) g) = arcs g @ ([(2 * i, 2 * i + 1), (2 * i + 1, 2 * i)] @ new)"
    using ih(3) g1(1) by simp
  moreover have "\<forall>a b. (a, b) \<in> set ([(2 * i, 2 * i + 1), (2 * i + 1, 2 * i)] @ new)
      \<longrightarrow> (b, a) \<in> set ([(2 * i, 2 * i + 1), (2 * i + 1, 2 * i)] @ new) \<and> a < 2 * (i + Suc n)"
    using ih(4) by auto
  ultimately show ?case using ih(1,2) g1(2,3) by auto
qed

lemma set_objective_classes_frame:
  "set_objective_classes expr g = Inr g' \<Longrightarrow>
   arcs g' = arcs g \<and> length (initial_equivalence_classes g') = length (initial_equivalence_classes g)"
proof (induction expr arbitrary: g)
  case Nil
  then show ?case by simp
next
  case (Cons t expr)
  obtain l c where t: "t = (l, c)" by (cases t)
  obtain ident g1 where gid: "GetId g LITERAL_NODE c = (ident, g1)" by (cases "GetId g LITERAL_NODE c")
  let ?g2 = "g1\<lparr>initial_equivalence_classes := (initial_equivalence_classes g1)[l := ident]\<rparr>"
  from Cons.prems t gid have "set_objective_classes expr ?g2 = Inr g'"
    by (simp split: if_splits)
  from Cons.IH [OF this] GetId_frame [OF gid] show ?case by simp
qed

lemma literal_graph_spec:
  assumes "literal_graph nv obj = Inr g"
  shows "length (initial_equivalence_classes g) = 2 * nv"
    and "\<forall>a b. (a, b) \<in> set (arcs g) \<longrightarrow> (b, a) \<in> set (arcs g) \<and> a < 2 * nv"
proof -
  let ?e = "\<lparr>arcs = [], initial_equivalence_classes = [], id_map = []\<rparr>"
  let ?g0 = "add_literal_arcs 0 nv ?e"
  obtain ident g1 where gid: "GetId ?g0 LITERAL_NODE 0 = (ident, g1)" by (cases "GetId ?g0 LITERAL_NODE 0")
  let ?g2 = "g1\<lparr>initial_equivalence_classes := replicate (2 * nv) ident\<rparr>"
  from add_literal_arcs_spec [of 0 nv ?e] obtain new where
    new: "arcs ?g0 = new" "\<forall>a b. (a, b) \<in> set new \<longrightarrow> (b, a) \<in> set new \<and> a < 2 * nv"
    by auto
  from GetId_frame [OF gid] new have g2: "arcs ?g2 = new" "length (initial_equivalence_classes ?g2) = 2 * nv"
    by simp_all
  from assms gid have "g = ?g2 \<or> (\<exists>expr. set_objective_classes expr ?g2 = Inr g)"
    by (auto simp: literal_graph_def Let_def split: option.splits)
  then have "arcs g = new \<and> length (initial_equivalence_classes g) = 2 * nv"
    using g2 set_objective_classes_frame by auto
  with new(2) show "length (initial_equivalence_classes g) = 2 * nv"
    and "\<forall>a b. (a, b) \<in> set (arcs g) \<longrightarrow> (b, a) \<in> set (arcs g) \<and> a < 2 * nv"
    by simp_all
qed

lemma add_constraints_append:
  "add_constraints (xs @ ys) g = add_constraints ys (add_constraints xs g)"
  by (induction xs arbitrary: g) simp_all

lemma term_arcs_current_attached:
  assumes "l \<in> literals_with_coefficient ts prev" and "sorted (prev # map snd ts)"
  shows "(cur, l) \<in> set (term_arcs cn nxt ts cur prev)"
  using assms
proof (induction ts arbitrary: nxt)
  case Nil
  then show ?case by (simp add: literals_with_coefficient_def)
next
  case (Cons t ts)
  obtain l0 c0 where t: "t = (l0, c0)" by (cases t)
  from Cons.prems(2) t have pc: "prev \<le> c0" and srt: "sorted (c0 # map snd ts)" by simp_all
  show ?case
  proof (cases "c0 = prev")
    case True
    with srt have s': "sorted (prev # map snd ts)" by simp
    from Cons.prems(1) t have "l = l0 \<or> l \<in> literals_with_coefficient ts prev"
      by (auto simp: literals_with_coefficient_def)
    then show ?thesis
    proof
      assume "l = l0"
      with True t show ?thesis by simp
    next
      assume "l \<in> literals_with_coefficient ts prev"
      from Cons.IH [OF this s'] True t show ?thesis by simp
    qed
  next
    case False
    with pc have "prev < c0" by simp
    from sorted_prev_no_term [OF srt this] Cons.prems(1) t False
    show ?thesis by (auto simp: literals_with_coefficient_def)
  qed
qed

text \<open>
  C9 (as stated). "Every distinct coefficient value of a canonical constraint
  has its own per-coefficient node." This fails for the coefficient 1: the loop
  starts with \<^verbatim>\<open>previous_coefficient(1)\<close> and \<^verbatim>\<open>current_node_index = constraint_node_index\<close>,
  so the literals with coefficient 1 are joined to the constraint node itself.
  For \<open>x0 + x1 \<ge> 1\<close> the graph has the four literal nodes and the constraint node
  4 and nothing else.
\<close>

theorem C9_unit_coefficient_counterexample:
  "GenerateGraphForSymmetryDetection 2 None ex_canonical_unit = Inr ex_unit_graph
   \<and> constraint_node 2 None ex_canonical_unit 0 = 4
   \<and> 1 \<in> snd ` set (snd (ex_canonical_unit ! 0))
   \<and> length (initial_equivalence_classes ex_unit_graph) = 2 * 2 + 1
   \<and> \<not> (\<exists>n. n \<ge> 2 * 2 \<and> n \<noteq> constraint_node 2 None ex_canonical_unit 0
            \<and> constraint_node 2 None ex_canonical_unit 0 \<in> out_neighbours ex_unit_graph n)"
proof -
  have g: "GenerateGraphForSymmetryDetection 2 None ex_canonical_unit = Inr ex_unit_graph"
    by code_simp
  have cn: "constraint_node 2 None ex_canonical_unit 0 = 4" by code_simp
  have "\<And>n. 4 \<in> out_neighbours ex_unit_graph n \<Longrightarrow> n < 4"
    by (auto simp: out_neighbours_def ex_unit_graph_def)
  then have "\<not> (\<exists>n. n \<ge> 2 * 2 \<and> n \<noteq> 4 \<and> 4 \<in> out_neighbours ex_unit_graph n)" by fastforce
  with g cn show ?thesis by (simp add: ex_canonical_unit_def ex_unit_graph_def)
qed

text \<open>
  C9 (amended). In the graph built from canonical constraints whose literal
  indices are below \<open>2 \<cdot> num_variables\<close>, for every constraint whose terms are
  sorted by increasing positive coefficient and every coefficient value other
  than 1 occurring among its terms, there is a node that is neither a literal
  node nor the constraint's node and whose neighbours (in both directions) are
  exactly the constraint's node and the literal nodes of the terms with that
  coefficient.
\<close>

theorem C9_coefficient_nodes:
  assumes gen: "GenerateGraphForSymmetryDetection nv obj canonical = Inr g"
    and i: "i < length canonical"
    and srt: "sorted (map snd (snd (canonical ! i)))"
    and pos: "\<forall>c \<in> snd ` set (snd (canonical ! i)). 1 \<le> c"
    and lits: "\<forall>ct \<in> set canonical. \<forall>l \<in> fst ` set (snd ct). l < 2 * nv"
    and c: "c \<in> snd ` set (snd (canonical ! i))" "c \<noteq> 1"
  shows "\<exists>n. n \<ge> 2 * nv \<and> n \<noteq> constraint_node nv obj canonical i
           \<and> out_neighbours g n
               = insert (constraint_node nv obj canonical i)
                   (literals_with_coefficient (snd (canonical ! i)) c)
           \<and> in_neighbours g n = out_neighbours g n"
proof -
  let ?pre = "take i canonical" and ?ct = "canonical ! i" and ?post = "drop (Suc i) canonical"
  let ?ts = "snd ?ct"
  from gen obtain g0 where lg: "literal_graph nv obj = Inr g0" and g: "g = add_constraints canonical g0"
    by (auto simp: GenerateGraphForSymmetryDetection_def split: sum.splits)
  let ?gp = "add_constraints ?pre g0"
  let ?gi = "add_constraint ?ct ?gp"
  let ?cn = "length (initial_equivalence_classes ?gp)"
  from i have split: "canonical = ?pre @ ?ct # ?post" by (rule id_take_nth_drop)
  have g_eq: "g = add_constraints ?post ?gi"
    unfolding g by (subst split) (simp only: add_constraints_append add_constraints.simps)
  have cn: "constraint_node nv obj canonical i = ?cn"
    by (simp add: constraint_node_def GenerateGraphForSymmetryDetection_def lg)
  note l0 = literal_graph_spec [OF lg]
  from add_constraints_arcs [of ?pre g0] obtain new_pre where
    pre: "arcs ?gp = arcs g0 @ new_pre" "length (initial_equivalence_classes g0) \<le> ?cn"
      "\<forall>a b. (a, b) \<in> set new_pre \<longrightarrow> (b, a) \<in> set new_pre
         \<and> ((length (initial_equivalence_classes g0) \<le> a \<and> a < ?cn)
            \<or> (\<exists>ct \<in> set ?pre. a \<in> fst ` set (snd ct)))"
    by blast
  note blk = add_constraint_arcs [of ?ct ?gp]
  let ?blk = "term_arcs ?cn (Suc ?cn) ?ts ?cn 1"
  from add_constraints_arcs [of ?post ?gi] obtain new_post where
    post: "arcs (add_constraints ?post ?gi) = arcs ?gi @ new_post"
      "\<forall>a b. (a, b) \<in> set new_post \<longrightarrow> (b, a) \<in> set new_post
         \<and> ((length (initial_equivalence_classes ?gi) \<le> a
                \<and> a < length (initial_equivalence_classes (add_constraints ?post ?gi)))
            \<or> (\<exists>ct \<in> set ?post. a \<in> fst ` set (snd ct)))"
    by blast
  have arcs_g: "set (arcs g) = set (arcs g0) \<union> set new_pre \<union> set ?blk \<union> set new_post"
    unfolding g_eq post(1) blk(1) pre(1) by auto
  from l0(1) pre(2) have base: "2 * nv \<le> ?cn" by simp
  from i have "?ct \<in> set canonical" by simp
  with lits base have lt: "\<forall>l \<in> fst ` set ?ts. l < Suc ?cn" by fastforce
  from srt pos have s1: "sorted (1 # map snd ?ts)" by auto
  from term_arcs_coefficient_node [OF s1 c(1) c(2) _ _ lt, of ?cn ?cn] obtain n where
    n: "Suc ?cn \<le> n" "n < Suc ?cn + new_nodes ?ts 1"
    and out: "{b. (n, b) \<in> set ?blk} = insert ?cn (literals_with_coefficient ?ts c)"
    by auto
  from n blk(2) have n_hi: "n < length (initial_equivalence_classes ?gi)" by simp
  have lit_small: "\<And>ct a. ct \<in> set canonical \<Longrightarrow> a \<in> fst ` set (snd ct) \<Longrightarrow> a < n"
    using lits base n(1) by fastforce
  have no0: "\<And>b. (n, b) \<notin> set (arcs g0)"
    using l0(2) base n(1) by fastforce
  have no_pre: "\<And>b. (n, b) \<notin> set new_pre"
  proof
    fix b assume "(n, b) \<in> set new_pre"
    with pre(3) have "(length (initial_equivalence_classes g0) \<le> n \<and> n < ?cn)
            \<or> (\<exists>ct \<in> set ?pre. n \<in> fst ` set (snd ct))" by blast
    then show False
    proof
      assume "length (initial_equivalence_classes g0) \<le> n \<and> n < ?cn"
      with n(1) show False by simp
    next
      assume "\<exists>ct \<in> set ?pre. n \<in> fst ` set (snd ct)"
      then obtain ct where "ct \<in> set ?pre" "n \<in> fst ` set (snd ct)" by blast
      with lit_small [of ct n] show False by (auto dest: in_set_takeD)
    qed
  qed
  have no_post: "\<And>b. (n, b) \<notin> set new_post"
  proof
    fix b assume "(n, b) \<in> set new_post"
    with post(2) have "(length (initial_equivalence_classes ?gi) \<le> n
                \<and> n < length (initial_equivalence_classes (add_constraints ?post ?gi)))
            \<or> (\<exists>ct \<in> set ?post. n \<in> fst ` set (snd ct))" by blast
    then show False
    proof
      assume "length (initial_equivalence_classes ?gi) \<le> n
                \<and> n < length (initial_equivalence_classes (add_constraints ?post ?gi))"
      with n_hi show False by simp
    next
      assume "\<exists>ct \<in> set ?post. n \<in> fst ` set (snd ct)"
      then obtain ct where "ct \<in> set ?post" "n \<in> fst ` set (snd ct)" by blast
      with lit_small [of ct n] show False by (auto dest: in_set_dropD)
    qed
  qed
  have out_g: "out_neighbours g n = insert ?cn (literals_with_coefficient ?ts c)"
    unfolding out_neighbours_def arcs_g using no0 no_pre no_post out by auto
  have sym: "\<And>a b. (a, b) \<in> set (arcs g) \<Longrightarrow> (b, a) \<in> set (arcs g)"
    unfolding arcs_g using l0(2) pre(3) post(2) term_arcs_symmetric [of _ _ ?cn "Suc ?cn" ?ts ?cn 1]
    by blast
  then have "in_neighbours g n = out_neighbours g n"
    unfolding in_neighbours_def out_neighbours_def by blast
  with out_g cn base n(1) show ?thesis by (intro exI [of _ n]) simp
qed


theorem C9_coefficient_nodes_witness:
  "GenerateGraphForSymmetryDetection 2 None ex_canonical_mixed = Inr ex_mixed_graph
   \<and> sorted (map snd (snd (ex_canonical_mixed ! 0)))
   \<and> 2 \<in> snd ` set (snd (ex_canonical_mixed ! 0))
   \<and> (\<exists>n. n \<ge> 4 \<and> n \<noteq> 4 \<and> out_neighbours ex_mixed_graph n = {4, 2, 1}
          \<and> in_neighbours ex_mixed_graph n = out_neighbours ex_mixed_graph n)"
proof -
  have g: "GenerateGraphForSymmetryDetection 2 None ex_canonical_mixed = Inr ex_mixed_graph"
    by code_simp
  have cn: "constraint_node 2 None ex_canonical_mixed 0 = 4" by code_simp
  have i: "0 < length ex_canonical_mixed" by (simp add: ex_canonical_mixed_def)
  have srt: "sorted (map snd (snd (ex_canonical_mixed ! 0)))" by (simp add: ex_canonical_mixed_def)
  have pos: "\<forall>c \<in> snd ` set (snd (ex_canonical_mixed ! 0)). 1 \<le> c" by (simp add: ex_canonical_mixed_def)
  have lits: "\<forall>ct \<in> set ex_canonical_mixed. \<forall>l \<in> fst ` set (snd ct). l < 2 * 2"
    by (simp add: ex_canonical_mixed_def)
  have c: "2 \<in> snd ` set (snd (ex_canonical_mixed ! 0))" "(2::int) \<noteq> 1"
    by (simp_all add: ex_canonical_mixed_def)
  have L: "literals_with_coefficient (snd (ex_canonical_mixed ! 0)) 2 = {2, 1}"
    by (auto simp: literals_with_coefficient_def ex_canonical_mixed_def)
  from C9_coefficient_nodes [OF g i srt pos lits c] g srt c(1) show ?thesis
    unfolding cn L by simp
qed

text \<open>The literals with coefficient 1 are joined to the constraint node itself.\<close>

lemma unit_coefficient_literals_on_constraint_node:
  assumes gen: "GenerateGraphForSymmetryDetection nv obj canonical = Inr g"
    and i: "i < length canonical"
    and srt: "sorted (map snd (snd (canonical ! i)))"
    and pos: "\<forall>c \<in> snd ` set (snd (canonical ! i)). 1 \<le> c"
  shows "literals_with_coefficient (snd (canonical ! i)) 1
           \<subseteq> out_neighbours g (constraint_node nv obj canonical i)"
proof
  fix l assume l: "l \<in> literals_with_coefficient (snd (canonical ! i)) 1"
  let ?pre = "take i canonical" and ?ct = "canonical ! i" and ?post = "drop (Suc i) canonical"
  from gen obtain g0 where lg: "literal_graph nv obj = Inr g0" and g: "g = add_constraints canonical g0"
    by (auto simp: GenerateGraphForSymmetryDetection_def split: sum.splits)
  let ?gp = "add_constraints ?pre g0"
  let ?gi = "add_constraint ?ct ?gp"
  let ?cn = "length (initial_equivalence_classes ?gp)"
  from i have split: "canonical = ?pre @ ?ct # ?post" by (rule id_take_nth_drop)
  have g_eq: "g = add_constraints ?post ?gi"
    unfolding g by (subst split) (simp only: add_constraints_append add_constraints.simps)
  have cn: "constraint_node nv obj canonical i = ?cn"
    by (simp add: constraint_node_def GenerateGraphForSymmetryDetection_def lg)
  from add_constraints_arcs [of ?post ?gi] obtain new_post where
    post: "arcs (add_constraints ?post ?gi) = arcs ?gi @ new_post" by blast
  from srt pos have s1: "sorted (1 # map snd (snd ?ct))" by auto
  from term_arcs_current_attached [OF l s1, of ?cn ?cn "Suc ?cn"]
  have "(?cn, l) \<in> set (arcs ?gi)" unfolding add_constraint_arcs(1) by simp
  then have "(?cn, l) \<in> set (arcs g)" unfolding g_eq post by simp
  then show "l \<in> out_neighbours g (constraint_node nv obj canonical i)"
    unfolding cn out_neighbours_def by simp
qed

section \<open>Properties: savings list\<close>

lemma insert_link_mset: "mset (insert_link x ys) = add_mset x (mset ys)"
  by (induction ys) simp_all

lemma fold_insert_link_mset: "mset (fold insert_link xs acc) = mset xs + mset acc"
  by (induction xs arbitrary: acc) (simp_all add: insert_link_mset)

lemma sort_links_mset: "mset (sort_links xs) = mset xs"
  by (simp add: sort_links_def fold_insert_link_mset)

lemma insert_link_sorted:
  "sorted_wrt (\<lambda>a b. link_value a \<ge> link_value b) ys \<Longrightarrow>
   sorted_wrt (\<lambda>a b. link_value a \<ge> link_value b) (insert_link x ys)"
proof (induction ys)
  case Nil
  then show ?case by simp
next
  case (Cons y ys)
  have "set (insert_link x ys) = insert x (set ys)"
    using insert_link_mset [of x ys] by (metis set_mset_add_mset_insert set_mset_mset)
  with Cons show ?case by (auto simp: LinkComparator_def)
qed

lemma fold_insert_link_sorted:
  "sorted_wrt (\<lambda>a b. link_value a \<ge> link_value b) acc \<Longrightarrow>
   sorted_wrt (\<lambda>a b. link_value a \<ge> link_value b) (fold insert_link xs acc)"
  by (induction xs arbitrary: acc) (simp_all add: insert_link_sorted)

lemma sort_links_sorted: "sorted_wrt (\<lambda>a b. link_value a \<ge> link_value b) (sort_links xs)"
  by (simp add: sort_links_def fold_insert_link_sorted)

lemma class_loop_sorted:
  assumes "class_loop ops sb classes acc = Inr links"
    and "sorted_wrt (\<lambda>a b. link_value a \<ge> link_value b) acc"
  shows "sorted_wrt (\<lambda>a b. link_value a \<ge> link_value b) links"
  using assms
proof (induction classes arbitrary: acc)
  case Nil
  then show ?case by simp
next
  case (Cons vc classes)
  from Cons.prems(1) obtain acc' where
    "class_loop ops sb classes (sort_links acc') = Inr links"
    by (auto split: sum.splits)
  from Cons.IH [OF this sort_links_sorted] show ?case .
qed

text \<open>
  What the code does keep of the claim: the list handed to the route
  constructor is in descending order of the stored link values.
\<close>

lemma CreateSavingsList_sorted:
  "CreateSavingsList ops sb = Inr links \<Longrightarrow>
   sorted_wrt (\<lambda>a b. link_value a \<ge> link_value b) links"
  unfolding CreateSavingsList_def by (erule class_loop_sorted) simp

text \<open>The link that the innermost loop appends for a pair of distinct nodes,
  neither of them a depot of the class.\<close>

lemma add_saving_link:
  assumes "add_saving ops sb vc node neighbor acc = Inr acc'"
    and "node \<noteq> start_depot vc" "node \<noteq> end_depot vc"
    and "neighbor \<noteq> start_depot vc" "neighbor \<noteq> end_depot vc" "node \<noteq> neighbor"
  shows "\<exists>to_start from_end direct.
           vec_at (sb_costs sb ! nat node) (start_depot vc) = Inr to_start
         \<and> vec_at (sb_costs sb ! nat (end_depot vc)) neighbor = Inr from_end
         \<and> vec_at (sb_costs sb ! nat node) neighbor = Inr direct
         \<and> acc' = acc @ [\<lparr>link = (node, neighbor),
               link_value = to_int64 ops (d_sub ops (of_int64 ops (to_start + from_end))
                              (d_mul ops (route_shape_parameter sb) (of_int64 ops direct))),
               vehicle_class = class_index vc,
               link_start_depot = start_depot vc, link_end_depot = end_depot vc\<rparr>]"
  using assms
  by (auto simp: add_saving_def Let_def vec_at_def split: sum.splits if_splits)

lemma add_saving_skip:
  assumes "node = start_depot vc \<or> node = end_depot vc
           \<or> neighbor = start_depot vc \<or> neighbor = end_depot vc \<or> node = neighbor"
  shows "add_saving ops sb vc node neighbor acc = Inr acc"
  using assms by (auto simp: add_saving_def)

text \<open>
  C8. The claim gives every candidate link the value
  \<open>c(i, s) + c(e, j) - \<lambda> \<cdot> c(i, j)\<close> and has the links processed in descending
  order of it. The code computes that value as a \<^verbatim>\<open>double\<close> and passes it to a
  constructor whose parameter is a \<^verbatim>\<open>double\<close>, but the member it initialises is an
  \<^verbatim>\<open>int64\<close>: the fraction is lost before the sort. With \<open>\<lambda> = 1/2\<close> the link
  \<open>(1, 3)\<close> of the example has saving \<open>39/2\<close> and is stored with value 19, like
  the link \<open>(1, 2)\<close> whose saving is 19, and it comes after that link in the
  list.
\<close>

theorem C8_saving_value_truncated:
  "map_sum id (map (\<lambda>l. (link l, link_value l))) (CreateSavingsList exact_double ex_savings)
     = Inr [((1, 2), 19), ((1, 3), 19), ((2, 1), 19), ((2, 3), 19), ((3, 1), 19), ((3, 2), 19)]
   \<and> saving_formula (sb_costs ex_savings) (1 / 2) 0 0 1 2 = 19
   \<and> saving_formula (sb_costs ex_savings) (1 / 2) 0 0 1 3 = 39 / 2"
proof -
  have "map_sum id (map (\<lambda>l. (link l, link_value l))) (CreateSavingsList exact_double ex_savings)
     = Inr [((1, 2), 19), ((1, 3), 19), ((2, 1), 19), ((2, 3), 19), ((3, 1), 19), ((3, 2), 19)]"
    by code_simp
  moreover have "saving_formula (sb_costs ex_savings) (1 / 2) 0 0 1 2 = 19"
    "saving_formula (sb_costs ex_savings) (1 / 2) 0 0 1 3 = 39 / 2"
    by (simp_all add: saving_formula_def ex_savings_def)
  ultimately show ?thesis by simp
qed

section \<open>Properties: routes and assignments\<close>

lemma set_next_apply: "set_next m a i v k = (if k = i then Some (v, v) else a k)"
  by (simp add: set_next_def SetValue_def Add_def)

lemma linked_cong:
  "\<forall>k \<in> set (butlast xs). a' k = a k \<Longrightarrow> linked a' xs = linked a xs"
proof (induction a xs rule: linked.induct)
  case (3 a x y zs)
  then show ?case by simp
qed simp_all

lemma linked_snoc:
  "linked a (xs @ [x]) \<Longrightarrow> a x = Some (y, y) \<Longrightarrow> linked a (xs @ [x, y])"
proof (induction a xs rule: linked.induct)
  case (1 a)
  then show ?case by simp
next
  case (2 a z)
  then show ?case by simp
next
  case (3 a z y' zs)
  then show ?case by simp
qed

text \<open>One accepted step of the route loop.\<close>

lemma route_step_accepted:
  assumes "route_step m vehicle ign st to_node = Inr (True, st')"
    and "\<forall>idx. NodeToIndex m to_node = Inr idx \<longrightarrow> ActiveVar_Max m idx \<noteq> 0"
  shows "\<exists>to_index. NodeToIndex m to_node = Inr to_index \<and> 0 \<le> to_index \<and> to_index < Size m
           \<and> to_index \<notin> visited_indices st
           \<and> st' = st\<lparr>visited_indices := insert to_index (visited_indices st),
                      rs_assignment := set_next m (rs_assignment st) (from_index st) to_index,
                      from_index := to_index\<rparr>"
proof -
  from assms(1) obtain to_index where ti: "NodeToIndex m to_node = Inr to_index"
    by (auto simp: route_step_def split: if_splits sum.splits)
  with assms(2) have act: "ActiveVar_Max m to_index \<noteq> 0" by simp
  from assms(1) ti act show ?thesis
    by (auto simp: route_step_def Let_def split: if_splits)
qed

lemma route_loop_accepted:
  assumes "route_loop m vehicle ign route st = Inr (True, st')"
    and "\<forall>node \<in> set route. \<forall>idx. NodeToIndex m node = Inr idx \<longrightarrow> ActiveVar_Max m idx \<noteq> 0"
    and "from_index st \<in> visited_indices st"
    and "linked (rs_assignment st) (pre @ [from_index st])"
    and "set pre \<subseteq> visited_indices st" and "from_index st \<notin> set pre"
  shows "\<exists>idxs. list_all2 (\<lambda>node idx. NodeToIndex m node = Inr idx) route idxs
           \<and> (\<forall>i \<in> set idxs. 0 \<le> i \<and> i < Size m)
           \<and> distinct idxs \<and> set idxs \<inter> visited_indices st = {}
           \<and> visited_indices st' = visited_indices st \<union> set idxs
           \<and> from_index st' = last (from_index st # idxs)
           \<and> (\<forall>k. k \<notin> set (butlast (from_index st # idxs)) \<longrightarrow> rs_assignment st' k = rs_assignment st k)
           \<and> linked (rs_assignment st') (pre @ from_index st # idxs)"
  using assms
proof (induction route arbitrary: st pre)
  case Nil
  then show ?case by (intro exI [of _ "[]"]) simp
next
  case (Cons to_node route)
  from Cons.prems(1) obtain st1 where
    s1: "route_step m vehicle ign st to_node = Inr (True, st1)"
    and r: "route_loop m vehicle ign route st1 = Inr (True, st')"
    by (auto split: sum.splits if_splits)
  from Cons.prems(2) have act: "\<forall>idx. NodeToIndex m to_node = Inr idx \<longrightarrow> ActiveVar_Max m idx \<noteq> 0"
    and act': "\<forall>node \<in> set route. \<forall>idx. NodeToIndex m node = Inr idx \<longrightarrow> ActiveVar_Max m idx \<noteq> 0"
    by simp_all
  from route_step_accepted [OF s1 act] obtain t where
    t: "NodeToIndex m to_node = Inr t" "0 \<le> t" "t < Size m" "t \<notin> visited_indices st"
    and st1: "st1 = st\<lparr>visited_indices := insert t (visited_indices st),
                      rs_assignment := set_next m (rs_assignment st) (from_index st) t,
                      from_index := t\<rparr>"
    by blast
  let ?f = "from_index st"
  let ?a = "rs_assignment st" and ?a1 = "rs_assignment st1"
  from st1 have a1: "?a1 = set_next m ?a ?f t" and v1: "visited_indices st1 = insert t (visited_indices st)"
    and f1: "from_index st1 = t" by simp_all
  have ne: "t \<noteq> ?f" using t(4) Cons.prems(3) by auto
  have "linked ?a1 (pre @ [?f]) = linked ?a (pre @ [?f])"
    by (rule linked_cong) (use Cons.prems(6) in \<open>simp add: a1 set_next_apply\<close>)
  with Cons.prems(4) have "linked ?a1 (pre @ [?f])" by simp
  moreover have "?a1 ?f = Some (t, t)" by (simp add: a1 set_next_apply)
  ultimately have l1: "linked ?a1 ((pre @ [?f]) @ [from_index st1])"
    unfolding f1 using linked_snoc by fastforce
  have p1: "from_index st1 \<in> visited_indices st1" by (simp add: f1 v1)
  have p2: "set (pre @ [?f]) \<subseteq> visited_indices st1"
    using Cons.prems(3,5) v1 by auto
  have p3: "from_index st1 \<notin> set (pre @ [?f])"
    using f1 t(4) Cons.prems(3,5) by auto
  from Cons.IH [OF r act' p1 l1 p2 p3] obtain idxs where
    ih: "list_all2 (\<lambda>node idx. NodeToIndex m node = Inr idx) route idxs"
      "\<forall>i \<in> set idxs. 0 \<le> i \<and> i < Size m"
      "distinct idxs" "set idxs \<inter> visited_indices st1 = {}"
      "visited_indices st' = visited_indices st1 \<union> set idxs"
      "from_index st' = last (from_index st1 # idxs)"
      "\<forall>k. k \<notin> set (butlast (from_index st1 # idxs)) \<longrightarrow> rs_assignment st' k = ?a1 k"
      "linked (rs_assignment st') ((pre @ [?f]) @ from_index st1 # idxs)"
    by blast
  have frame: "\<forall>k. k \<notin> set (butlast (?f # t # idxs)) \<longrightarrow> rs_assignment st' k = ?a k"
  proof (intro allI impI)
    fix k assume k: "k \<notin> set (butlast (?f # t # idxs))"
    then have "k \<noteq> ?f" "k \<notin> set (butlast (t # idxs))" by auto
    with ih(7) f1 show "rs_assignment st' k = ?a k" by (simp add: a1 set_next_apply)
  qed
  show ?case
    apply (rule exI [of _ "t # idxs"])
    using ih t v1 f1 frame by auto
qed

lemma distinct_last_notin_butlast: "distinct xs \<Longrightarrow> xs \<noteq> [] \<Longrightarrow> last xs \<notin> set (butlast xs)"
  by (metis append_butlast_last_id distinct_append disjoint_iff list.set_intros(1))

lemma vehicle_step_accepted:
  assumes run: "vehicle_step m ign True vehicle route st = Inr (True, st')"
    and act: "\<forall>node \<in> set route. \<forall>idx. NodeToIndex m node = Inr idx \<longrightarrow> ActiveVar_Max m idx \<noteq> 0"
  shows "visited_indices st \<subseteq> visited_indices st'
       \<and> (\<forall>k \<in> visited_indices st. rs_assignment st' k = rs_assignment st k)
       \<and> encoded m (rs_assignment st') (visited_indices st') vehicle route"
proof -
  from run obtain s where s: "Start m vehicle = Inr s" and sn: "s \<notin> visited_indices st"
    by (auto simp: vehicle_step_def split: sum.splits if_splits)
  let ?st0 = "st\<lparr>visited_indices := insert s (visited_indices st), from_index := s\<rparr>"
  from run s sn obtain st1 e where
    rl: "route_loop m vehicle ign route ?st0 = Inr (True, st1)"
    and e: "End m vehicle = Inr e"
    and st': "st' = st1\<lparr>rs_assignment := set_next m (rs_assignment st1) (from_index st1) e\<rparr>"
    by (auto simp: vehicle_step_def split: sum.splits if_splits)
  have "\<exists>idxs. list_all2 (\<lambda>node idx. NodeToIndex m node = Inr idx) route idxs
           \<and> (\<forall>i \<in> set idxs. 0 \<le> i \<and> i < Size m)
           \<and> distinct idxs \<and> set idxs \<inter> visited_indices ?st0 = {}
           \<and> visited_indices st1 = visited_indices ?st0 \<union> set idxs
           \<and> from_index st1 = last (from_index ?st0 # idxs)
           \<and> (\<forall>k. k \<notin> set (butlast (from_index ?st0 # idxs)) \<longrightarrow> rs_assignment st1 k = rs_assignment ?st0 k)
           \<and> linked (rs_assignment st1) ([] @ from_index ?st0 # idxs)"
    by (rule route_loop_accepted [OF rl act]) simp_all
  then obtain idxs where
    i: "list_all2 (\<lambda>node idx. NodeToIndex m node = Inr idx) route idxs"
      "\<forall>i \<in> set idxs. 0 \<le> i \<and> i < Size m"
      "distinct idxs" "set idxs \<inter> insert s (visited_indices st) = {}"
      "visited_indices st1 = insert s (visited_indices st) \<union> set idxs"
      "from_index st1 = last (s # idxs)"
      "\<forall>k. k \<notin> set (butlast (s # idxs)) \<longrightarrow> rs_assignment st1 k = rs_assignment st k"
      "linked (rs_assignment st1) (s # idxs)"
    by auto
  let ?a1 = "rs_assignment st1" and ?a' = "rs_assignment st'"
  from i(3,4) have d: "distinct (s # idxs)" by auto
  then have ln: "last (s # idxs) \<notin> set (butlast (s # idxs))"
    by (rule distinct_last_notin_butlast) simp
  have a': "?a' = set_next m ?a1 (last (s # idxs)) e" using st' i(6) by simp
  have "linked ?a' (s # idxs) = linked ?a1 (s # idxs)"
    by (rule linked_cong) (use ln in \<open>auto simp: a' set_next_apply\<close>)
  with i(8) have "linked ?a' (butlast (s # idxs) @ [last (s # idxs)])" by simp
  moreover have "?a' (last (s # idxs)) = Some (e, e)" by (simp add: a' set_next_apply)
  ultimately have "linked ?a' (butlast (s # idxs) @ [last (s # idxs), e])" by (rule linked_snoc)
  then have lk: "linked ?a' (s # idxs @ [e])"
    by (metis append.assoc append_Cons append_Nil append_butlast_last_id list.distinct(1))
  have vis: "visited_indices st' = insert s (visited_indices st) \<union> set idxs" using st' i(5) by simp
  have frame: "\<forall>k \<in> visited_indices st. ?a' k = rs_assignment st k"
  proof
    fix k assume k: "k \<in> visited_indices st"
    with sn i(4) have "k \<notin> set (s # idxs)" by auto
    then have "k \<notin> set (butlast (s # idxs))" "k \<noteq> last (s # idxs)"
      by (auto dest: in_set_butlastD)
    with i(7) show "?a' k = rs_assignment st k" by (simp add: a' set_next_apply)
  qed
  have "encoded m ?a' (visited_indices st') vehicle route"
    unfolding encoded_def
    apply (rule exI [of _ s], rule exI [of _ e], rule exI [of _ idxs])
    using s e i(1,2,3) vis lk by auto
  with vis frame show ?thesis by auto
qed

lemma encoded_mono:
  assumes "encoded m a V vehicle route" and "V \<subseteq> V'" and "\<forall>k \<in> V. a' k = a k"
  shows "encoded m a' V' vehicle route"
proof -
  from assms(1) obtain s e idxs where
    f: "Start m vehicle = Inr s" "End m vehicle = Inr e"
      "list_all2 (\<lambda>node idx. NodeToIndex m node = Inr idx) route idxs"
      "\<forall>i \<in> set idxs. 0 \<le> i \<and> i < Size m" "distinct idxs" "set (s # idxs) \<subseteq> V"
      "linked a (s # idxs @ [e])"
    unfolding encoded_def by blast
  have "linked a' (s # idxs @ [e]) = linked a (s # idxs @ [e])"
  proof (rule linked_cong)
    have "butlast (s # idxs @ [e]) = s # idxs" by (simp add: butlast_append)
    with f(6) assms(3) show "\<forall>k \<in> set (butlast (s # idxs @ [e])). a' k = a k" by auto
  qed
  with f assms(2) show ?thesis unfolding encoded_def by blast
qed

lemma vehicles_loop_accepted:
  assumes "vehicles_loop m ign True vehicle routes st = Inr (True, st')"
    and "no_inactive_node m routes"
  shows "visited_indices st \<subseteq> visited_indices st'
       \<and> (\<forall>k \<in> visited_indices st. rs_assignment st' k = rs_assignment st k)
       \<and> (\<forall>j < length routes.
            encoded m (rs_assignment st') (visited_indices st') (vehicle + int j) (routes ! j))"
  using assms
proof (induction routes arbitrary: vehicle st)
  case Nil
  then show ?case by simp
next
  case (Cons route routes)
  from Cons.prems(1) obtain st1 where
    vs: "vehicle_step m ign True vehicle route st = Inr (True, st1)"
    and rest: "vehicles_loop m ign True (vehicle + 1) routes st1 = Inr (True, st')"
    by (auto split: sum.splits if_splits)
  from Cons.prems(2) have act: "\<forall>node \<in> set route. \<forall>idx. NodeToIndex m node = Inr idx \<longrightarrow> ActiveVar_Max m idx \<noteq> 0"
    and na: "no_inactive_node m routes"
    by (auto simp: no_inactive_node_def)
  from vehicle_step_accepted [OF vs act] have
    v1: "visited_indices st \<subseteq> visited_indices st1"
    and f1: "\<forall>k \<in> visited_indices st. rs_assignment st1 k = rs_assignment st k"
    and e1: "encoded m (rs_assignment st1) (visited_indices st1) vehicle route"
    by simp_all
  from Cons.IH [OF rest na] have
    v2: "visited_indices st1 \<subseteq> visited_indices st'"
    and f2: "\<forall>k \<in> visited_indices st1. rs_assignment st' k = rs_assignment st1 k"
    and e2: "\<forall>j < length routes.
            encoded m (rs_assignment st') (visited_indices st') (vehicle + 1 + int j) (routes ! j)"
    by simp_all
  from encoded_mono [OF e1 v2 f2] have e0: "encoded m (rs_assignment st') (visited_indices st') vehicle route" .
  have "\<forall>j < length (route # routes).
            encoded m (rs_assignment st') (visited_indices st') (vehicle + int j) ((route # routes) ! j)"
  proof (intro allI impI)
    fix j assume j: "j < length (route # routes)"
    show "encoded m (rs_assignment st') (visited_indices st') (vehicle + int j) ((route # routes) ! j)"
    proof (cases j)
      case 0
      with e0 show ?thesis by simp
    next
      case (Suc j')
      with j e2 have "encoded m (rs_assignment st') (visited_indices st') (vehicle + 1 + int j') (routes ! j')"
        by simp
      with Suc show ?thesis by (simp add: add.assoc)
    qed
  qed
  with v1 v2 f1 f2 show ?case by auto
qed

lemma unused_vehicles_loop_accepted:
  assumes "unused_vehicles_loop m True vs st = Inr (True, st')"
  shows "visited_indices st \<subseteq> visited_indices st'
       \<and> (\<forall>k \<in> visited_indices st. rs_assignment st' k = rs_assignment st k)
       \<and> (\<forall>vehicle \<in> set vs. encoded m (rs_assignment st') (visited_indices st') vehicle [])"
  using assms
proof (induction vs arbitrary: st)
  case Nil
  then show ?case by simp
next
  case (Cons vehicle vs)
  from Cons.prems obtain s e where
    s: "Start m vehicle = Inr s" and sn: "s \<notin> visited_indices st" and e: "End m vehicle = Inr e"
    by (auto simp: Let_def split: sum.splits if_splits)
  let ?st1 = "st\<lparr>visited_indices := insert s (visited_indices st),
                 rs_assignment := set_next m (rs_assignment st) s e\<rparr>"
  from Cons.prems s sn e have rest: "unused_vehicles_loop m True vs ?st1 = Inr (True, st')"
    by (simp add: Let_def)
  from Cons.IH [OF rest] have
    v2: "visited_indices ?st1 \<subseteq> visited_indices st'"
    and f2: "\<forall>k \<in> visited_indices ?st1. rs_assignment st' k = rs_assignment ?st1 k"
    and e2: "\<forall>vehicle \<in> set vs. encoded m (rs_assignment st') (visited_indices st') vehicle []"
    by simp_all
  have e1: "encoded m (rs_assignment ?st1) (visited_indices ?st1) vehicle []"
    unfolding encoded_def
    apply (rule exI [of _ s], rule exI [of _ e], rule exI [of _ "[]"])
    using s e by (simp add: set_next_apply)
  from encoded_mono [OF e1 v2 f2]
  have e0: "encoded m (rs_assignment st') (visited_indices st') vehicle []" .
  have f: "\<forall>k \<in> visited_indices st. rs_assignment st' k = rs_assignment st k"
  proof
    fix k assume k: "k \<in> visited_indices st"
    with sn have "k \<noteq> s" by auto
    with f2 k show "rs_assignment st' k = rs_assignment st k" by (simp add: set_next_apply)
  qed
  from v2 f e0 e2 show ?case by auto
qed

lemma deactivate_loop_frame:
  "k \<in> visited \<Longrightarrow> deactivate_loop m visited idxs a k = a k"
  by (induction idxs arbitrary: a) (auto simp: set_next_apply)

lemma follow_route_linked:
  assumes "linked a (xs @ [e])" and "IsEnd m e" and "\<forall>i \<in> set xs. \<not> IsEnd m i"
    and "list_all2 (\<lambda>i n. IndexToNode m i = Inr n) xs ns"
    and "xs = [] \<or> k + int (length xs) \<le> Size m"
  shows "follow_route m a (hd (xs @ [e])) k = Inr ns"
  using assms
proof (induction xs arbitrary: k ns)
  case Nil
  then show ?case by (subst follow_route.simps) simp
next
  case (Cons x xs)
  from Cons.prems(4) obtain n ns' where ns: "ns = n # ns'" and n: "IndexToNode m x = Inr n"
    and rest: "list_all2 (\<lambda>i n. IndexToNode m i = Inr n) xs ns'"
    by (auto simp: list_all2_Cons1)
  let ?y = "hd (xs @ [e])"
  from Cons.prems(1) have ax: "a x = Some (?y, ?y)" and lk: "linked a (xs @ [e])"
    by (cases xs; simp)+
  from Cons.prems(3) have nx: "\<not> IsEnd m x" and nxs: "\<forall>i \<in> set xs. \<not> IsEnd m i" by simp_all
  from Cons.prems(5) have k1: "k + 1 \<le> Size m" and k2: "xs = [] \<or> (k + 1) + int (length xs) \<le> Size m"
    by simp_all
  from Cons.IH [OF lk Cons.prems(2) nxs rest k2]
  have ih: "follow_route m a ?y (k + 1) = Inr ns'" .
  have "follow_route m a x k = Inr (n # ns')"
    by (subst follow_route.simps) (use nx n ax k1 ih in simp)
  with ns show ?case by simp
qed

lemma distinct_range_length:
  assumes "distinct xs" and "\<forall>i \<in> set xs. 0 \<le> i \<and> i < (n::int)"
  shows "xs = [] \<or> int (length xs) \<le> n"
proof (cases xs)
  case Nil
  then show ?thesis by simp
next
  case (Cons x xs')
  with assms(2) have pos: "0 \<le> n" by auto
  from assms(2) have "set xs \<subseteq> {0 ..< n}" by auto
  then have "card (set xs) \<le> card {0 ..< n}" by (intro card_mono) simp_all
  with assms(1) pos have "int (length xs) \<le> n" by (simp add: distinct_card)
  then show ?thesis by simp
qed

lemma vehicle_route_encoded:
  assumes enc: "encoded m a V vehicle route" and wf: "index_space_consistent m"
  shows "vehicle_route m a vehicle = Inr route"
proof -
  from enc obtain s e idxs where
    f: "Start m vehicle = Inr s" "End m vehicle = Inr e"
      "list_all2 (\<lambda>node idx. NodeToIndex m node = Inr idx) route idxs"
      "\<forall>i \<in> set idxs. 0 \<le> i \<and> i < Size m" "distinct idxs"
      "linked a (s # idxs @ [e])"
    unfolding encoded_def by blast
  from wf f(2) have ee: "IsEnd m e" by (auto simp: index_space_consistent_def)
  from f(4) have ne: "\<forall>i \<in> set idxs. \<not> IsEnd m i" by (auto simp: IsEnd_def)
  have inverse: "list_all2 (\<lambda>i n. IndexToNode m i = Inr n) idxs route"
  proof -
    from f(3) have len: "length route = length idxs" by (rule list_all2_lengthD)
    have "\<And>j. j < length idxs \<Longrightarrow> IndexToNode m (idxs ! j) = Inr (route ! j)"
    proof -
      fix j assume j: "j < length idxs"
      with f(3) len have "NodeToIndex m (route ! j) = Inr (idxs ! j)" by (simp add: list_all2_conv_all_nth)
      moreover from j f(4) have "0 \<le> idxs ! j \<and> idxs ! j < Size m" by simp
      ultimately show "IndexToNode m (idxs ! j) = Inr (route ! j)"
        using wf unfolding index_space_consistent_def by blast
    qed
    with len show ?thesis by (simp add: list_all2_conv_all_nth)
  qed
  from distinct_range_length [OF f(5) f(4)] have len: "idxs = [] \<or> 0 + int (length idxs) \<le> Size m" by simp
  let ?y = "hd (idxs @ [e])"
  from f(6) have as: "a s = Some (?y, ?y)" and lk: "linked a (idxs @ [e])"
    by (cases idxs; simp)+
  from follow_route_linked [OF lk ee ne inverse len]
  have "follow_route m a ?y 0 = Inr route" .
  with f(1) as show ?thesis by (simp add: vehicle_route_def)
qed

lemma collect_routes_nth:
  assumes "length rs = length vs" and "\<forall>j < length vs. vehicle_route m a (vs ! j) = Inr (rs ! j)"
  shows "collect_routes m a vs = Inr rs"
  using assms
proof (induction vs arbitrary: rs)
  case Nil
  then show ?case by simp
next
  case (Cons v vs)
  then obtain r rs' where rs: "rs = r # rs'" by (cases rs) auto
  with Cons.prems have l: "length rs' = length vs"
    and h: "vehicle_route m a v = Inr r"
    and t: "\<forall>j < length vs. vehicle_route m a (vs ! j) = Inr (rs' ! j)"
    by auto
  from Cons.IH [OF l t] h rs show ?case by simp
qed

lemma vec_set_Inr:
  "vec_set xs i v = Inr ys \<longleftrightarrow> 0 \<le> i \<and> i < int (length xs) \<and> ys = xs[nat i := v]"
  by (auto simp: vec_set_def)

lemma assign_node_indices_inverse:
  assumes "assign_node_indices S E node_list (i2n, n2i, index) = Inr (i2n', n2i', index')"
    and "indices_inverse i2n n2i index" and "0 \<le> index"
  shows "indices_inverse i2n' n2i' index' \<and> index \<le> index'"
  using assms
proof (induction node_list arbitrary: i2n n2i index)
  case Nil
  then show ?case by simp
next
  case (Cons i rest)
  show ?case
  proof (cases "i \<in> S \<or> i \<notin> E")
    case False
    with Cons.prems(1) have "assign_node_indices S E rest (i2n, n2i, index) = Inr (i2n', n2i', index')"
      by simp
    from Cons.IH [OF this Cons.prems(2,3)] show ?thesis .
  next
    case True
    with Cons.prems(1) obtain i2n1 n2i1 where
      w1: "vec_set i2n index i = Inr i2n1" and w2: "vec_set n2i i index = Inr n2i1"
      and rest: "assign_node_indices S E rest (i2n1, n2i1, index + 1) = Inr (i2n', n2i', index')"
      by (auto split: sum.splits)
    from w1 have r1: "nat index < length i2n" and e1: "i2n1 = i2n[nat index := i]"
      using Cons.prems(3) by (auto simp: vec_set_Inr)
    from w2 have r2: "0 \<le> i" "nat i < length n2i" and e2: "n2i1 = n2i[nat i := index]"
      by (auto simp: vec_set_Inr)
    have "indices_inverse i2n1 n2i1 (index + 1)"
      unfolding indices_inverse_def
    proof (intro allI impI)
      fix node assume n: "node < length n2i1" and pos: "0 \<le> n2i1 ! node"
      show "n2i1 ! node < index + 1 \<and> nat (n2i1 ! node) < length i2n1
              \<and> i2n1 ! nat (n2i1 ! node) = int node"
      proof (cases "node = nat i")
        case True
        with e1 e2 r1 r2 show ?thesis by simp
      next
        case False
        with e2 n pos have old: "n2i1 ! node = n2i ! node" "node < length n2i" "0 \<le> n2i ! node" by simp_all
        with Cons.prems(2) have "n2i ! node < index" "nat (n2i ! node) < length i2n"
          "i2n ! nat (n2i ! node) = int node"
          by (simp_all add: indices_inverse_def)
        with old e1 show ?thesis by (simp add: nth_list_update)
      qed
    qed
    from Cons.IH [OF rest this] Cons.prems(3) show ?thesis by simp
  qed
qed

lemma assign_starts_frame:
  assumes "assign_starts n2i ps (node_set, sts, i2n, i2v, index) = Inr (node_set', sts', i2n', i2v', index')"
    and "0 \<le> index"
  shows "length i2n' = length i2n \<and> index \<le> index' \<and> (\<forall>k. int k < index \<longrightarrow> i2n' ! k = i2n ! k)"
  using assms
proof (induction ps arbitrary: node_set sts i2n i2v index)
  case Nil
  then show ?case by simp
next
  case (Cons p ps)
  obtain i start end_node where p: "p = (i, start, end_node)" by (cases p)
  show ?case
  proof (cases "start \<notin> node_set")
    case True
    with Cons.prems(1) p obtain sts1 i2v1 where
      "assign_starts n2i ps (insert start node_set, sts1, i2n, i2v1, index) = Inr (node_set', sts', i2n', i2v', index')"
      by (auto split: sum.splits if_splits)
    from Cons.IH [OF this Cons.prems(2)] show ?thesis .
  next
    case False
    with Cons.prems(1) p obtain sts1 i2n1 i2v1 where
      w: "vec_set i2n index start = Inr i2n1" and
      rest: "assign_starts n2i ps (node_set, sts1, i2n1, i2v1, index + 1) = Inr (node_set', sts', i2n', i2v', index')"
      by (auto split: sum.splits)
    from w have e: "i2n1 = i2n[nat index := start]" by (simp add: vec_set_Inr)
    from Cons.prems(2) have "0 \<le> index + 1" by simp
    from Cons.IH [OF rest this] e Cons.prems(2) show ?thesis by (auto simp: nth_list_update)
  qed
qed

lemma assign_ends_frame:
  assumes "assign_ends n ps (i2n, es, i2v, index) = Inr (i2n', es', i2v', index')"
    and "0 \<le> index"
  shows "length i2n' = length i2n \<and> (\<forall>k. int k < index \<longrightarrow> i2n' ! k = i2n ! k)"
  using assms
proof (induction ps arbitrary: i2n es i2v index)
  case Nil
  then show ?case by simp
next
  case (Cons p ps)
  obtain i start end_node where p: "p = (i, start, end_node)" by (cases p)
  from Cons.prems(1) p obtain i2n1 es1 i2v1 where
    w: "vec_set i2n index end_node = Inr i2n1" and
    rest: "assign_ends n ps (i2n1, es1, i2v1, index + 1) = Inr (i2n', es', i2v', index')"
    by (auto split: sum.splits if_splits)
  from w have e: "i2n1 = i2n[nat index := end_node]" by (simp add: vec_set_Inr)
  from Cons.prems(2) have "0 \<le> index + 1" by simp
  from Cons.IH [OF rest this] e Cons.prems(2) show ?case by (auto simp: nth_list_update)
qed

lemma assign_ends_values:
  assumes "assign_ends n ps (i2n, es, i2v, index) = Inr (i2n', es', i2v', index')"
  shows "length es' = length es
       \<and> (\<forall>j < length es. n \<le> es' ! j \<or> (int j \<notin> fst ` set ps \<and> es' ! j = es ! j))"
  using assms
proof (induction ps arbitrary: i2n es i2v index)
  case Nil
  then show ?case by simp
next
  case (Cons p ps)
  obtain i start end_node where p: "p = (i, start, end_node)" by (cases p)
  from Cons.prems p obtain i2n1 es1 i2v1 where
    w: "vec_set es i index = Inr es1" and ge: "n \<le> index" and
    rest: "assign_ends n ps (i2n1, es1, i2v1, index + 1) = Inr (i2n', es', i2v', index')"
    by (auto split: sum.splits if_splits)
  from w have r: "0 \<le> i" "nat i < length es" and e: "es1 = es[nat i := index]"
    by (auto simp: vec_set_Inr)
  from Cons.IH [OF rest] have ih: "length es' = length es1"
    "\<forall>j < length es1. n \<le> es' ! j \<or> (int j \<notin> fst ` set ps \<and> es' ! j = es1 ! j)" by simp_all
  have "n \<le> es' ! j \<or> (int j \<notin> fst ` set (p # ps) \<and> es' ! j = es ! j)" if j: "j < length es" for j
  proof (cases "j = nat i")
    case True
    with ih(2) j e ge r show ?thesis by auto
  next
    case False
    with r have "int j \<noteq> i" by auto
    with ih(2) j e False p show ?thesis by auto
  qed
  with ih(1) e show ?case by simp
qed

lemma resize_Nil: "resize [] n v = replicate (nat n) v"
  by (simp add: resize_def)

text \<open>
  On a model as its constructor leaves it, \<^verbatim>\<open>SetStartEnd\<close> builds consistent index
  tables whenever it returns. No other function writes them, and a second
  call changes nothing.
\<close>

lemma SetStartEnd_consistent:
  assumes fresh: "freshly_constructed m" and run: "SetStartEnd m start_end = Inr m'"
  shows "index_space_consistent m'"
proof -
  from fresh have nd: "\<not> is_depot_set m" and n2i0: "node_to_index m = []"
    and le: "length (ends m) = nat (vehicles m)"
    by (simp_all add: freshly_constructed_def)
  let ?ps = "zip (map int [0 ..< length start_end]) start_end"
  from run nd obtain S E i2n1 n2i index1 node_set sts i2n2 i2v2 index2 i2n3 es i2v3 index3 where
    len: "int (length start_end) = vehicles m" and
    l2: "assign_node_indices S E (map int [0 ..< nat (nodes m)])
           (resize (index_to_node m) (Size m + vehicles m) 0, resize (node_to_index m) (nodes m) kUnassigned, 0)
         = Inr (i2n1, n2i, index1)" and
    l3: "assign_starts n2i ?ps ({}, starts m, i2n1,
            resize (index_to_vehicle m) (Size m + vehicles m) kUnassigned, index1)
         = Inr (node_set, sts, i2n2, i2v2, index2)" and
    l4: "assign_ends (Size m) ?ps (i2n2, ends m, i2v2, index2) = Inr (i2n3, es, i2v3, index3)" and
    m': "m' = m\<lparr>starts := sts, ends := es, index_to_node := i2n3, node_to_index := n2i,
                 index_to_vehicle := i2v3, is_depot_set := True\<rparr>"
    by (auto simp: SetStartEnd_def Let_def split: if_splits sum.splits)
  from m' have size: "Size m' = Size m" by (simp add: Size_def)
  have init: "indices_inverse (resize (index_to_node m) (Size m + vehicles m) 0)
                (resize (node_to_index m) (nodes m) kUnassigned) 0"
    by (simp add: indices_inverse_def n2i0 resize_Nil kUnassigned_def)
  from assign_node_indices_inverse [OF l2 init] have inv1: "indices_inverse i2n1 n2i index1"
    and i1: "0 \<le> index1" by simp_all
  from assign_starts_frame [OF l3 i1] have f2: "length i2n2 = length i2n1" "index1 \<le> index2"
    "\<forall>k. int k < index1 \<longrightarrow> i2n2 ! k = i2n1 ! k" by simp_all
  from i1 f2(2) have i2: "0 \<le> index2" by simp
  from assign_ends_frame [OF l4 i2] have f3: "length i2n3 = length i2n2"
    "\<forall>k. int k < index2 \<longrightarrow> i2n3 ! k = i2n2 ! k" by simp_all
  have a: "IndexToNode m' idx = Inr node" if "NodeToIndex m' node = Inr idx" "0 \<le> idx" for node idx
  proof -
    from that(1) m' have r: "0 \<le> node" "nat node < length n2i" and idx: "idx = n2i ! nat node"
      by (auto simp: NodeToIndex_def vec_at_def split: if_splits)
    with inv1 that(2) have "idx < index1" "nat idx < length i2n1" "i2n1 ! nat idx = int (nat node)"
      by (simp_all add: indices_inverse_def)
    with f2 f3 that(2) r have "nat idx < length i2n3" "i2n3 ! nat idx = node" by simp_all
    with that(2) m' show ?thesis by (simp add: IndexToNode_def vec_at_def)
  qed
  have b: "IsEnd m' e" if "End m' vehicle = Inr e" for vehicle e
  proof -
    from assign_ends_values [OF l4] have les: "length es = length (ends m)"
      and v: "\<forall>j < length (ends m). Size m \<le> es ! j \<or> (int j \<notin> fst ` set ?ps \<and> es ! j = ends m ! j)"
      by simp_all
    from that m' have r: "0 \<le> vehicle" "nat vehicle < length es" and e: "e = es ! nat vehicle"
      by (auto simp: End_def vec_at_def split: if_splits)
    from r les le len have "nat vehicle < length start_end" by linarith
    then have "int (nat vehicle) \<in> fst ` set ?ps"
      by (force simp: set_zip)
    moreover from r les have "nat vehicle < length (ends m)" by simp
    ultimately have "Size m \<le> es ! nat vehicle" using v by blast
    with e size show ?thesis by (simp add: IsEnd_def)
  qed
  from a b show ?thesis unfolding index_space_consistent_def by blast
qed

lemma SetStartEnd_again: "is_depot_set m \<Longrightarrow> SetStartEnd m start_end = Inr m"
  by (simp add: SetStartEnd_def)

text \<open>The tables of \<open>ex_two_vehicles\<close> are those that \<^verbatim>\<open>SetDepot(0)\<close> builds.\<close>

lemma ex_two_vehicles_tables:
  "freshly_constructed ex_constructed
   \<and> map_sum id (\<lambda>m. (starts m, ends m, index_to_node m, node_to_index m, index_to_vehicle m))
         (SetDepot ex_constructed 0)
       = Inr (starts ex_two_vehicles, ends ex_two_vehicles, index_to_node ex_two_vehicles,
              node_to_index ex_two_vehicles, index_to_vehicle ex_two_vehicles)"
  by code_simp

lemma ex_two_vehicles_consistent: "index_space_consistent ex_two_vehicles"
proof -
  have "IndexToNode ex_two_vehicles idx = Inr node"
    if "NodeToIndex ex_two_vehicles node = Inr idx" for node idx
  proof -
    from that have "node \<in> {0, 1, 2, 3}"
      by (auto simp: NodeToIndex_def vec_at_def ex_two_vehicles_def split: if_splits)
    with that show ?thesis
      by (auto simp: NodeToIndex_def IndexToNode_def vec_at_def ex_two_vehicles_def)
  qed
  moreover have "IsEnd ex_two_vehicles e" if "End ex_two_vehicles vehicle = Inr e" for vehicle e
  proof -
    from that have "vehicle \<in> {0, 1}"
      by (auto simp: End_def vec_at_def ex_two_vehicles_def split: if_splits)
    with that show ?thesis
      by (auto simp: End_def IsEnd_def Size_def vec_at_def ex_two_vehicles_def)
  qed
  ultimately show ?thesis unfolding index_space_consistent_def by blast
qed

text \<open>
  C6. Round trip between routes and assignments. On a model whose index tables
  are consistent (every node index that maps to a variable index below Size is
  mapped back by IndexToNode, and the end of every vehicle is an end index; this
  is how SetStartEnd builds them),
  if RoutesToAssignment with close_routes true accepts the routes and none of
  their nodes is inactive, then AssignmentToRoutes on the assignment it
  produced returns the same routes, followed by one empty route for every
  vehicle of the model that was given no route. In particular none of the
  checks of AssignmentToRoutes fails.
\<close>

theorem C6_routes_round_trip:
  assumes acc: "RoutesToAssignment m routes ignore_inactive_nodes True a0 = Inr (True, a)"
    and act: "no_inactive_node m routes"
    and wf: "index_space_consistent m"
  shows "AssignmentToRoutes m a
           = Inr (routes @ replicate (nat (vehicles m) - length routes) [])"
proof -
  let ?st0 = "\<lparr>rs_assignment = a0, visited_indices = {}, from_index = 0\<rparr>"
  let ?vs = "map int [length routes ..< nat (vehicles m)]"
  from acc have cl: "closed m" and le: "int (length routes) \<le> vehicles m"
    by (auto simp: RoutesToAssignment_def Let_def split: if_splits)
  from acc cl le obtain st where
    l1: "vehicles_loop m ignore_inactive_nodes True 0 routes ?st0 = Inr (True, st)"
    and r1: "(case unused_vehicles_loop m True ?vs st of
                Inl e \<Rightarrow> Inl e
              | Inr (ok', st') \<Rightarrow>
                  if \<not> ok' then Inr (False, rs_assignment st')
                  else Inr (True, deactivate_loop m (visited_indices st')
                                    (map int [0 ..< nat (Size m)]) (rs_assignment st')))
             = Inr (True, a)"
    by (auto simp: RoutesToAssignment_def Let_def split: if_splits sum.splits)
  from r1 obtain st' where
    l2: "unused_vehicles_loop m True ?vs st = Inr (True, st')"
    and a: "a = deactivate_loop m (visited_indices st') (map int [0 ..< nat (Size m)])
                  (rs_assignment st')"
    by (auto split: if_splits sum.splits)
  from vehicles_loop_accepted [OF l1 act] have
    e1: "\<forall>j < length routes. encoded m (rs_assignment st) (visited_indices st) (0 + int j) (routes ! j)"
    by simp
  from unused_vehicles_loop_accepted [OF l2] have
    v2: "visited_indices st \<subseteq> visited_indices st'"
    and f2: "\<forall>k \<in> visited_indices st. rs_assignment st' k = rs_assignment st k"
    and e2: "\<forall>vehicle \<in> set ?vs. encoded m (rs_assignment st') (visited_indices st') vehicle []"
    by simp_all
  have f3: "\<forall>k \<in> visited_indices st'. a k = rs_assignment st' k"
    unfolding a by (simp add: deactivate_loop_frame)
  let ?rs = "routes @ replicate (nat (vehicles m) - length routes) []"
  let ?all = "map int [0 ..< nat (vehicles m)]"
  from le have len: "length ?rs = length ?all" by simp
  have "\<forall>j < length ?all. vehicle_route m a (?all ! j) = Inr (?rs ! j)"
  proof (intro allI impI)
    fix j assume j: "j < length ?all"
    then have jv: "j < nat (vehicles m)" by simp
    then have nth: "?all ! j = int j" by simp
    have "encoded m a (visited_indices st') (int j) (?rs ! j)"
    proof (cases "j < length routes")
      case True
      with e1 have "encoded m (rs_assignment st) (visited_indices st) (int j) (routes ! j)" by simp
      from encoded_mono [OF this v2 f2]
      have "encoded m (rs_assignment st') (visited_indices st') (int j) (routes ! j)" .
      from encoded_mono [OF this subset_refl f3] True show ?thesis by (simp add: nth_append)
    next
      case False
      with jv have "int j \<in> set ?vs" by auto
      with e2 have "encoded m (rs_assignment st') (visited_indices st') (int j) []" by blast
      from encoded_mono [OF this subset_refl f3] False jv show ?thesis by (simp add: nth_append)
    qed
    from vehicle_route_encoded [OF this wf] nth
    show "vehicle_route m a (?all ! j) = Inr (?rs ! j)" by simp
  qed
  from collect_routes_nth [OF len this] cl show ?thesis by (simp add: AssignmentToRoutes_def)
qed

theorem C6_routes_round_trip_witness:
  "(\<exists>a. RoutesToAssignment ex_two_vehicles [[2, 1]] False True Map.empty = Inr (True, a)
        \<and> AssignmentToRoutes ex_two_vehicles a = Inr [[2, 1], []])
   \<and> no_inactive_node ex_two_vehicles [[2, 1]]
   \<and> index_space_consistent ex_two_vehicles"
proof -
  have "map_sum id fst (RoutesToAssignment ex_two_vehicles [[2, 1]] False True Map.empty) = Inr True"
    by code_simp
  then obtain a where
    acc: "RoutesToAssignment ex_two_vehicles [[2, 1]] False True Map.empty = Inr (True, a)"
    by (auto dest: map_sum_fst_Inr)
  have act: "no_inactive_node ex_two_vehicles [[2, 1]]"
    by (simp add: no_inactive_node_def ex_two_vehicles_def)
  have v: "vehicles ex_two_vehicles = 2" by (simp add: ex_two_vehicles_def)
  from C6_routes_round_trip [OF acc act ex_two_vehicles_consistent] v acc act
    ex_two_vehicles_consistent
  show ?thesis by auto
qed

end
